theory Spec2Isabelle
  imports
    Main
    "HOL-Library.Word"
    "HOL-Library.Char_ord"
    "HOL-Library.List_Lexorder"
    "HOL-Library.Sublist"
begin

unbundle bit_operations_syntax

section \<open>Go library functions used by tarfs\<close>

text \<open>
  The package calls a handful of functions of Go's standard library
  (\<^verbatim>\<open>strings\<close>, \<^verbatim>\<open>path/filepath\<close>, \<^verbatim>\<open>io\<close>) and of
  \<^verbatim>\<open>github.com/google/btree\<close>. They are not part of the repository; each is
  modelled here after its documented behaviour on Unix (separator \<^verbatim>\<open>/\<close>, no volume
  names). Go strings are byte sequences, compared bytewise: \<^typ>\<open>string\<close> with the
  lexicographic order of \<^theory_text>\<open>List_Lexorder\<close> over the byte order of
  \<^theory_text>\<open>Char_ord\<close>.
\<close>

subsection \<open>Package strings\<close>

definition sep :: char where
  "sep = CHR ''/''"

text \<open>\<^verbatim>\<open>strings.TrimPrefix(s, prefix)\<close> and \<^verbatim>\<open>strings.TrimSuffix(s, suffix)\<close>.\<close>

definition TrimPrefix :: "string \<Rightarrow> string \<Rightarrow> string" where
  "TrimPrefix s p = (if take (length p) s = p then drop (length p) s else s)"

definition TrimSuffix :: "string \<Rightarrow> string \<Rightarrow> string" where
  "TrimSuffix s p = rev (TrimPrefix (rev s) (rev p))"

text \<open>\<^verbatim>\<open>strings.Count(s, "/")\<close>: the number of separators in \<open>s\<close>.\<close>

definition CountSep :: "string \<Rightarrow> nat" where
  "CountSep s = length (filter (\<lambda>c. c = sep) s)"

text \<open>\<^verbatim>\<open>strings.Join(ss, sepstr)\<close>.\<close>

fun JoinStrings :: "string list \<Rightarrow> string \<Rightarrow> string" where
  "JoinStrings [] s = []"
| "JoinStrings [x] s = x"
| "JoinStrings (x # y # ys) s = x @ s @ JoinStrings (y # ys) s"

subsection \<open>Package path/filepath\<close>

text \<open>The elements of a path: the pieces between separators (empty pieces included).\<close>

fun splitSep :: "string \<Rightarrow> string list" where
  "splitSep [] = [[]]"
| "splitSep (c # cs) =
     (if c = sep then [] # splitSep cs
      else (case splitSep cs of [] \<Rightarrow> [[c]] | x # xs \<Rightarrow> (c # x) # xs))"

text \<open>
  \<^verbatim>\<open>filepath.Clean\<close> works through the elements from left to right: empty elements
  and \<^verbatim>\<open>.\<close> are dropped; \<^verbatim>\<open>..\<close> removes the element before it when
  there is one that is not itself \<^verbatim>\<open>..\<close>, is dropped at the root of a rooted
  path, and is kept otherwise. \<open>out\<close> holds the elements kept so far, last first.
\<close>

fun cleanElems :: "bool \<Rightarrow> string list \<Rightarrow> string list \<Rightarrow> string list" where
  "cleanElems rooted out [] = rev out"
| "cleanElems rooted out (e # es) =
     (if e = [] \<or> e = ''.'' then cleanElems rooted out es
      else if e = ''..'' then
        (case out of
           [] \<Rightarrow> if rooted then cleanElems rooted out es else cleanElems rooted [e] es
         | x # xs \<Rightarrow>
             if x \<noteq> ''..'' then cleanElems rooted xs es
             else if rooted then cleanElems rooted out es
             else cleanElems rooted (e # out) es)
      else cleanElems rooted (e # out) es)"

definition Clean :: "string \<Rightarrow> string" where
  "Clean path =
     (if path = [] then ''.''
      else
        let rooted = (hd path = sep);
            out = (if rooted then [sep] else []) @
                  JoinStrings (cleanElems rooted [] (splitSep path)) [sep]
        in if out = [] then ''.'' else out)"

text \<open>
  \<^verbatim>\<open>filepath.Join(a, b)\<close> for two elements: empty leading elements are ignored, the
  rest is joined with separators and cleaned; all empty gives the empty string.
\<close>

definition Join2 :: "string \<Rightarrow> string \<Rightarrow> string" where
  "Join2 a b =
     (if a \<noteq> [] then Clean (a @ [sep] @ b)
      else if b \<noteq> [] then Clean b
      else [])"

text \<open>
  \<^verbatim>\<open>filepath.Dir(path)\<close>: everything up to and including the last separator, cleaned.
\<close>

definition uptoLastSep :: "string \<Rightarrow> string" where
  "uptoLastSep path = rev (dropWhile (\<lambda>c. c \<noteq> sep) (rev path))"

definition Dir :: "string \<Rightarrow> string" where
  "Dir path = Clean (uptoLastSep path)"

text \<open>
  \<^verbatim>\<open>filepath.Base(path)\<close>: the last element, after trailing separators are removed;
  \<^verbatim>\<open>.\<close> for the empty path and a single separator for a path of separators only.
\<close>

definition Base :: "string \<Rightarrow> string" where
  "Base path =
     (if path = [] then ''.''
      else
        let p = rev (dropWhile (\<lambda>c. c = sep) (rev path));
            b = rev (takeWhile (\<lambda>c. c \<noteq> sep) (rev p))
        in if b = [] then [sep] else b)"

subsection \<open>Package io\<close>

type_synonym byte = "8 word"

text \<open>
  What \<^verbatim>\<open>errors.Cause\<close> of a read error can be: \<^verbatim>\<open>io.EOF\<close> or anything else.
\<close>

datatype io_error = EOF | ErrOther

text \<open>
  An \<^verbatim>\<open>io.ReaderAt\<close>: asked for a number of bytes at an offset, it delivers some
  bytes and possibly an error. \<open>callReadAt\<close> is the call \<^verbatim>\<open>r.ReadAt(p, off)\<close> on a
  buffer \<open>p\<close>: the bytes read overwrite the front of the buffer, the rest of the buffer
  is left as it was.
\<close>

type_synonym ReaderAt = "nat \<Rightarrow> int \<Rightarrow> byte list \<times> io_error option"

definition callReadAt :: "ReaderAt \<Rightarrow> byte list \<Rightarrow> int \<Rightarrow> nat \<times> byte list \<times> io_error option" where
  "callReadAt r p off =
     (case r (length p) off of
        (d, err) \<Rightarrow> let d' = take (length p) d in (length d', d' @ drop (length d') p, err))"

text \<open>\<^verbatim>\<open>bytes.Reader.ReadAt\<close>, the reader over a byte slice that the tests use.\<close>

definition bytesReader :: "byte list \<Rightarrow> ReaderAt" where
  "bytesReader s n off =
     (if off < 0 then ([], Some ErrOther)
      else if off \<ge> int (length s) then ([], Some EOF)
      else let d = take n (drop (nat off) s)
           in (d, if length d < n then Some EOF else None))"

text \<open>
  \<^verbatim>\<open>io.SectionReader\<close>: the view of a reader between \<open>sr_base\<close> and \<open>sr_limit\<close>.
  Offsets are \<^verbatim>\<open>int64\<close> in Go: they are integers here, and \<open>wrap64\<close> is put
  around every sum and difference of the library, which wrap around in Go.
\<close>

definition wrap64 :: "int \<Rightarrow> int" where
  "wrap64 x = (x + 2 ^ 63) mod 2 ^ 64 - 2 ^ 63"

record SectionReader =
  sr_r :: ReaderAt
  sr_base :: int
  sr_off :: int
  sr_limit :: int
  sr_n :: int

definition maxint64 :: int where
  "maxint64 = 2 ^ 63 - 1"

definition NewSectionReader :: "ReaderAt \<Rightarrow> int \<Rightarrow> int \<Rightarrow> SectionReader" where
  "NewSectionReader r off n =
     (let remaining = (if off \<le> wrap64 (maxint64 - n) then wrap64 (n + off) else maxint64)
      in \<lparr>sr_r = r, sr_base = off, sr_off = off, sr_limit = remaining, sr_n = n\<rparr>)"

definition SectionReader_Size :: "SectionReader \<Rightarrow> int" where
  "SectionReader_Size s = wrap64 (sr_limit s - sr_base s)"

definition SectionReader_ReadAt ::
  "SectionReader \<Rightarrow> byte list \<Rightarrow> int \<Rightarrow> nat \<times> byte list \<times> io_error option" where
  "SectionReader_ReadAt s p off =
     (if off < 0 \<or> off \<ge> SectionReader_Size s then (0, p, Some EOF)
      else
        let off' = wrap64 (off + sr_base s); mx = wrap64 (sr_limit s - off') in
        if int (length p) > mx then
          (case callReadAt (sr_r s) (take (nat mx) p) off' of
             (n, p', err) \<Rightarrow> (n, p' @ drop (nat mx) p, if err = None then Some EOF else err))
        else callReadAt (sr_r s) p off')"

subsection \<open>Package os: file modes\<close>

text \<open>
  \<^verbatim>\<open>os.FileMode\<close> is a \<^verbatim>\<open>uint32\<close>: \<^verbatim>\<open>ModeDir\<close> is bit 31,
  \<^verbatim>\<open>ModeSymlink\<close> bit 27, \<^verbatim>\<open>ModePerm\<close> the low nine bits.
\<close>

type_synonym FileMode = "32 word"

definition ModeDir :: FileMode where
  "ModeDir = push_bit 31 1"

definition ModeSymlink :: FileMode where
  "ModeSymlink = push_bit 27 1"

definition ModePerm :: FileMode where
  "ModePerm = 511"

definition IsDir :: "FileMode \<Rightarrow> bool" where
  "IsDir m = (m AND ModeDir \<noteq> 0)"

definition Perm :: "FileMode \<Rightarrow> FileMode" where
  "Perm m = m AND ModePerm"

section \<open>Data model (stat.go)\<close>

record Owner =
  UID :: "32 word"
  GID :: "32 word"

text \<open>Times are kept as Unix seconds.\<close>

record StatT =
  Mode :: "32 word"
  Owner :: Owner
  Atime :: int
  Mtime :: int
  Ctime :: int
  Ino :: int
  Size :: int

text \<open>
  A \<open>node\<close> points to its stat record; the pointer is nil in the placeholder the
  builder makes for a parent it has not seen yet.
\<close>

record node =
  name :: string
  stat :: "StatT option"

text \<open>
  A \<^verbatim>\<open>FileInfo\<close> interface value is nil, a pointer to a \<open>node\<close> or a pointer to a
  \<open>dirNode\<close>. A \<open>node\<close> is never changed once made, so the pointer is modelled by
  the value. A \<open>dirNode\<close> is updated in place while the index and the children lists
  of other directories point to it: those pointers are addresses into a heap of
  \<open>dirNode\<close> cells.
\<close>

datatype FileInfo = NilInfo | NodePtr node | DirPtr nat

record dirNode =
  node :: node
  entries :: "FileInfo list"

type_synonym heap = "dirNode list"

definition dirNode_Entries :: "dirNode \<Rightarrow> FileInfo list" where
  "dirNode_Entries n = entries n"

text \<open>
  The node behind an interface value, and its stat record. Every method of
  \<^verbatim>\<open>FileInfo\<close> but \<^verbatim>\<open>Name\<close> reads the stat record and panics with a nil
  dereference when there is none.
\<close>

definition fi_node :: "heap \<Rightarrow> FileInfo \<Rightarrow> node option" where
  "fi_node hp fi =
     (case fi of NilInfo \<Rightarrow> None | NodePtr n \<Rightarrow> Some n | DirPtr a \<Rightarrow> Some (node (hp ! a)))"

definition fi_stat :: "heap \<Rightarrow> FileInfo \<Rightarrow> StatT option" where
  "fi_stat hp fi = (case fi_node hp fi of None \<Rightarrow> None | Some n \<Rightarrow> stat n)"

definition fi_Name :: "heap \<Rightarrow> FileInfo \<Rightarrow> string" where
  "fi_Name hp fi = (case fi_node hp fi of None \<Rightarrow> [] | Some n \<Rightarrow> name n)"

datatype error =
    ErrReadingTar
  | ErrMissingDirs string
  | Panic string

definition nilDeref :: string where
  "nilDeref = ''runtime error: invalid memory address or nil pointer dereference''"

definition badConversion :: string where
  "badConversion = ''interface conversion: tarfs.FileInfo is *tarfs.node, not *tarfs.dirNode''"

section \<open>The ordered path index (store.go)\<close>

record stringKey =
  key :: string
  info :: FileInfo

definition Less :: "stringKey \<Rightarrow> stringKey \<Rightarrow> bool" where
  "Less k oKey =
     (let keyCount = CountSep (key k); oCount = CountSep (key oKey) in
      if keyCount < oCount then True
      else if keyCount = oCount then key k < key oKey
      else False)"

text \<open>
  The B-tree of \<^verbatim>\<open>github.com/google/btree\<close> is modelled by its items in ascending
  order. \<^verbatim>\<open>ReplaceOrInsert\<close> puts an item in its place, replacing the item that is
  neither less nor greater; \<^verbatim>\<open>Get\<close> finds that item; \<^verbatim>\<open>AscendRange\<close>
  visits, in order, the items from \<open>ge\<close> on that are less than \<open>lt\<close> (the iterator
  of \<open>Entries\<close> never stops early).
\<close>

type_synonym btreeStore = "stringKey list"

fun ReplaceOrInsert :: "stringKey \<Rightarrow> btreeStore \<Rightarrow> btreeStore" where
  "ReplaceOrInsert x [] = [x]"
| "ReplaceOrInsert x (y # ys) =
     (if Less x y then x # y # ys
      else if Less y x then y # ReplaceOrInsert x ys
      else x # ys)"

fun btGet :: "stringKey \<Rightarrow> btreeStore \<Rightarrow> stringKey option" where
  "btGet x [] = None"
| "btGet x (y # ys) =
     (if \<not> Less x y \<and> \<not> Less y x then Some y else btGet x ys)"

definition AscendRange :: "stringKey \<Rightarrow> stringKey \<Rightarrow> btreeStore \<Rightarrow> stringKey list" where
  "AscendRange ge lt s = filter (\<lambda>i. \<not> Less i ge \<and> Less i lt) s"

definition NewBTreeStore :: btreeStore where
  "NewBTreeStore = []"

text \<open>\<open>Add\<close> always returns a nil error, so the model returns the store alone.\<close>

definition Add :: "string \<Rightarrow> FileInfo \<Rightarrow> btreeStore \<Rightarrow> btreeStore" where
  "Add k fi s = ReplaceOrInsert \<lparr>key = k, info = fi\<rparr> s"

definition Get :: "string \<Rightarrow> btreeStore \<Rightarrow> FileInfo" where
  "Get k s =
     (case btGet \<lparr>key = k, info = NilInfo\<rparr> s of
        None \<Rightarrow> NilInfo
      | Some i \<Rightarrow> info i)"

text \<open>
  \<open>Entries\<close>: the two panics, then the children list of a \<open>dirNode\<close> (the only
  implementation of \<^verbatim>\<open>DirIndex\<close>), and the range scan otherwise.
\<close>

definition rangeScan :: "btreeStore \<Rightarrow> string \<Rightarrow> stringKey \<Rightarrow> FileInfo list" where
  "rangeScan s k sk =
     (let until = \<lparr>key = key sk @ ''//'', info = NilInfo\<rparr>
      in map info (filter (\<lambda>esk. key esk \<noteq> k \<and> Dir (key esk) = k) (AscendRange sk until s)))"

definition Entries :: "heap \<Rightarrow> btreeStore \<Rightarrow> string \<Rightarrow> error + FileInfo list" where
  "Entries hp s k =
     (case btGet \<lparr>key = k, info = NilInfo\<rparr> s of
        None \<Rightarrow> Inl (Panic ''non-existent key'')
      | Some sk \<Rightarrow>
          (case fi_stat hp (info sk) of
             None \<Rightarrow> Inl (Panic nilDeref)
           | Some st \<Rightarrow>
               if \<not> IsDir (Mode st)
               then Inl (Panic (''cannot list entries for non-dir: '' @ fi_Name hp (info sk)))
               else (case info sk of
                       DirPtr a \<Rightarrow> Inr (dirNode_Entries (hp ! a))
                     | _ \<Rightarrow> Inr (rangeScan s k sk))))"

section \<open>The archive builder (fs.go)\<close>

text \<open>
  What the builder reads of a \<^verbatim>\<open>tar.Header\<close>. \<open>h_FileMode\<close> is
  \<^verbatim>\<open>h.FileInfo().Mode()\<close>, the \<^verbatim>\<open>os.FileMode\<close> that
  \<^verbatim>\<open>archive/tar\<close> derives from the header's type flag and mode field;
  \<^verbatim>\<open>h.FileInfo().IsDir()\<close> is its directory bit.
\<close>

record Header =
  h_Name :: string
  h_FileMode :: FileMode
  h_Size :: int
  h_ModTime :: int
  h_AccessTime :: int
  h_ChangeTime :: int
  h_Uid :: int
  h_Gid :: int

text \<open>
  The archive as \<^verbatim>\<open>tar.Reader.Next\<close> delivers it: the headers, each with the
  position of the section reader after it (\<^verbatim>\<open>r.Seek(0, io.SeekCurrent)\<close>, which
  cannot fail on a section reader), and how the stream ends.
\<close>

record tarEntry =
  hdr :: Header
  pos :: int

datatype tarEnd = TarEOF | TarError

text \<open>
  \<open>fillStat\<close> on the file info of a tar header: \<open>fillStatSys\<close> matches neither of
  its cases, and the header case sets the owner and the times.
\<close>

definition fillStat :: "Header \<Rightarrow> StatT" where
  "fillStat h =
     \<lparr>Mode = h_FileMode h,
      Owner = \<lparr>UID = word_of_int (h_Uid h), GID = word_of_int (h_Gid h)\<rparr>,
      Atime = h_AccessTime h,
      Mtime = h_ModTime h,
      Ctime = h_ChangeTime h,
      Ino = 0,
      Size = h_Size h\<rparr>"

definition fuseNameToKey :: "string \<Rightarrow> string" where
  "fuseNameToKey nm = Join2 [sep] nm"

definition headerNameEntry :: "string \<Rightarrow> string" where
  "headerNameEntry nm =
     (let n = TrimSuffix (TrimPrefix nm ''./'') ''/''
      in fuseNameToKey (if n = ''.'' then [] else n))"

text \<open>
  The state of the loop of \<open>FromReaderAt\<close>: the store, the heap of directory nodes
  and the set \<open>missingDirs\<close> (a Go map used as a set; the list holds its keys, each
  once, and stands for whatever order the map is ranged over at the end).
\<close>

record buildState =
  bs_db :: btreeStore
  bs_heap :: heap
  missingDirs :: "string list"

text \<open>
  Lines 94 to 109 of the loop body: the node of the entry. A directory entry whose key
  is already in the store takes over the node stored there, which must be a
  \<open>dirNode\<close> (the type assertion panics otherwise).
\<close>

definition insertNode :: "tarEntry \<Rightarrow> buildState \<Rightarrow> error + (FileInfo \<times> buildState)" where
  "insertNode e s =
     (let h = hdr e;
          st = (fillStat h)\<lparr>Ino := pos e\<rparr>;
          k = headerNameEntry (h_Name h);
          nd = \<lparr>name = h_Name h, stat = Some st\<rparr>
      in
        if IsDir (h_FileMode h) then
          (case Get k (bs_db s) of
             NilInfo \<Rightarrow>
               let a = length (bs_heap s) in
               Inr (DirPtr a,
                    s\<lparr>bs_heap := bs_heap s @ [\<lparr>node = nd, entries = []\<rparr>],
                      bs_db := Add k (DirPtr a) (bs_db s)\<rparr>)
           | DirPtr a \<Rightarrow>
               Inr (DirPtr a,
                    s\<lparr>bs_heap := (bs_heap s)[a := (bs_heap s ! a)\<lparr>node := nd\<rparr>],
                      missingDirs := removeAll k (missingDirs s),
                      bs_db := Add k (DirPtr a) (bs_db s)\<rparr>)
           | NodePtr _ \<Rightarrow> Inl (Panic badConversion))
        else Inr (NodePtr nd, s\<lparr>bs_db := Add k (NodePtr nd) (bs_db s)\<rparr>))"

text \<open>
  Lines 111 to 122: the node is appended to the children of its parent directory, a
  placeholder when the store has none at the parent's key.
\<close>

definition linkParent :: "string \<Rightarrow> FileInfo \<Rightarrow> buildState \<Rightarrow> error + buildState" where
  "linkParent k nodeInfo s =
     (let parentKey = Dir k in
        case Get parentKey (bs_db s) of
          NilInfo \<Rightarrow>
            let a = length (bs_heap s);
                parent = \<lparr>node = \<lparr>name = Base parentKey, stat = None\<rparr>, entries = [nodeInfo]\<rparr>
            in Inr (s\<lparr>missingDirs := List.insert parentKey (missingDirs s),
                      bs_heap := bs_heap s @ [parent],
                      bs_db := Add parentKey (DirPtr a) (bs_db s)\<rparr>)
        | DirPtr a \<Rightarrow>
            let parent = bs_heap s ! a in
            Inr (s\<lparr>bs_heap := (bs_heap s)[a := parent\<lparr>entries := entries parent @ [nodeInfo]\<rparr>],
                   bs_db := Add parentKey (DirPtr a) (bs_db s)\<rparr>)
        | NodePtr _ \<Rightarrow> Inl (Panic badConversion))"

definition ingestEntry :: "tarEntry \<Rightarrow> buildState \<Rightarrow> error + buildState" where
  "ingestEntry e s =
     (case insertNode e s of
        Inl err \<Rightarrow> Inl err
      | Inr (nodeInfo, s') \<Rightarrow> linkParent (headerNameEntry (h_Name (hdr e))) nodeInfo s')"

fun ingestLoop :: "tarEntry list \<Rightarrow> buildState \<Rightarrow> error + buildState" where
  "ingestLoop [] s = Inr s"
| "ingestLoop (e # es) s =
     (case ingestEntry e s of
        Inl err \<Rightarrow> Inl err
      | Inr s' \<Rightarrow> ingestLoop es s')"

text \<open>The zero \<^verbatim>\<open>time.Time\<close> (1 January of year 1) in Unix seconds.\<close>

definition zeroTime :: int where
  "zeroTime = - 62135596800"

definition rootStat :: "32 word \<Rightarrow> 32 word \<Rightarrow> StatT" where
  "rootStat euid egid =
     \<lparr>Mode = 493 OR ModeDir,
      Owner = \<lparr>UID = euid, GID = egid\<rparr>,
      Atime = zeroTime, Mtime = zeroTime, Ctime = zeroTime,
      Ino = 2,
      Size = 4096\<rparr>"

text \<open>The state after the root node is added to the store passed in.\<close>

definition seedRoot :: "32 word \<Rightarrow> 32 word \<Rightarrow> btreeStore \<Rightarrow> heap \<Rightarrow> buildState" where
  "seedRoot euid egid store hp =
     \<lparr>bs_db = Add [sep] (DirPtr (length hp)) store,
      bs_heap = hp @ [\<lparr>node = \<lparr>name = [], stat = Some (rootStat euid egid)\<rparr>, entries = []\<rparr>],
      missingDirs = []\<rparr>"

record server =
  srv_db :: btreeStore
  srv_heap :: heap
  srv_stream :: ReaderAt

definition Newserver :: "btreeStore \<Rightarrow> heap \<Rightarrow> ReaderAt \<Rightarrow> server" where
  "Newserver store hp tarStream = \<lparr>srv_db = store, srv_heap = hp, srv_stream = tarStream\<rparr>"

definition missingMessage :: "string list \<Rightarrow> string" where
  "missingMessage ss = ''missing directory entries: '' @ JoinStrings ss '',''"

text \<open>
  \<open>FromReaderAt\<close>: \<open>euid\<close> and \<open>egid\<close> are the effective ids of the process,
  \<open>ra\<close> the archive, \<open>es\<close> and \<open>fin\<close> what the tar reader finds in it, \<open>store\<close>
  and \<open>hp\<close> the metadata store passed in and the directory nodes it points to.
\<close>

definition FromReaderAt ::
  "32 word \<Rightarrow> 32 word \<Rightarrow> ReaderAt \<Rightarrow> tarEntry list \<Rightarrow> tarEnd \<Rightarrow> btreeStore \<Rightarrow> heap
     \<Rightarrow> error + server" where
  "FromReaderAt euid egid ra es fin store hp =
     (case ingestLoop es (seedRoot euid egid store hp) of
        Inl err \<Rightarrow> Inl err
      | Inr s \<Rightarrow>
          (case fin of
             TarError \<Rightarrow> Inl ErrReadingTar
           | TarEOF \<Rightarrow>
               if length (missingDirs s) \<noteq> 0
               then Inl (ErrMissingDirs (missingMessage (missingDirs s)))
               else Inr (Newserver (bs_db s) (bs_heap s) ra)))"

section \<open>The filesystem adapter (fs.go, stat.go)\<close>

record Context =
  ctx_Uid :: "32 word"
  ctx_Gid :: "32 word"

datatype Status = OK | ENOENT | EIO | EPERM

definition checkPermissions :: "heap \<Rightarrow> FileInfo \<Rightarrow> Context \<Rightarrow> error + bool" where
  "checkPermissions hp fi ctx =
     (case fi_stat hp fi of
        None \<Rightarrow> Inl (Panic nilDeref)
      | Some st \<Rightarrow>
          let owner = Owner st; perms = Perm (Mode st) in
          Inr (if perms AND push_bit 2 1 \<noteq> 0 then True
               else if GID owner = ctx_Gid ctx then perms AND push_bit 5 1 \<noteq> 0
               else if UID owner = ctx_Uid ctx then perms AND push_bit 8 1 \<noteq> 0
               else False))"

record file_t =
  f_name :: string
  f_ReaderAt :: SectionReader

definition Open :: "server \<Rightarrow> string \<Rightarrow> 32 word \<Rightarrow> Context \<Rightarrow> error + (file_t option \<times> Status)" where
  "Open s nm flags ctx =
     (let f = Get (fuseNameToKey nm) (srv_db s) in
        if f = NilInfo then Inr (None, ENOENT)
        else
          (case fi_stat (srv_heap s) f of
             None \<Rightarrow> Inl (Panic nilDeref)
           | Some st \<Rightarrow>
               Inr (Some \<lparr>f_name = fi_Name (srv_heap s) f,
                          f_ReaderAt = NewSectionReader (srv_stream s) (Ino st) (Size st)\<rparr>,
                    OK)))"




record Attr =
  at_Mtime :: "64 word"
  at_Mode :: "32 word"
  at_Size :: "64 word"
  at_Owner :: Owner

definition S_IFDIR :: "32 word" where
  "S_IFDIR = 16384"

definition S_IFLNK :: "32 word" where
  "S_IFLNK = 40960"

definition S_IFREG :: "32 word" where
  "S_IFREG = 32768"

definition GetAttr :: "server \<Rightarrow> string \<Rightarrow> Context \<Rightarrow> error + (Attr option \<times> Status)" where
  "GetAttr s nm ctx =
     (let fi = Get (fuseNameToKey nm) (srv_db s) in
        if fi = NilInfo then Inr (None, ENOENT)
        else
          (case checkPermissions (srv_heap s) fi ctx of
             Inl err \<Rightarrow> Inl err
           | Inr allowed \<Rightarrow>
               if \<not> allowed then Inr (None, EPERM)
               else
                 (case fi_stat (srv_heap s) fi of
                    None \<Rightarrow> Inl (Panic nilDeref)
                  | Some st \<Rightarrow>
                      let m = Perm (Mode st);
                          m' = (if IsDir (Mode st) then m OR S_IFDIR
                                else if Mode st AND ModeSymlink = ModeSymlink then m OR S_IFLNK
                                else m OR S_IFREG)
                      in Inr (Some \<lparr>at_Mtime = word_of_int (Mtime st),
                                    at_Mode = m',
                                    at_Size = word_of_int (Size st),
                                    at_Owner = \<lparr>UID = UID (Owner st), GID = GID (Owner st)\<rparr>\<rparr>,
                              OK))))"

text \<open>
  \<open>file.Read\<close>: the result is nil (with \<open>EIO\<close>), the caller's buffer wrapped by
  \<^verbatim>\<open>fuse.ReadResultData\<close>, or the empty \<open>eofReadResult\<close>.
\<close>

datatype ReadResult = NilResult | ReadResultData "byte list" | eofReadResult

definition file_Read :: "file_t \<Rightarrow> byte list \<Rightarrow> int \<Rightarrow> ReadResult \<times> Status" where
  "file_Read f p off =
     (case SectionReader_ReadAt (f_ReaderAt f) p off of
        (n, p', err) \<Rightarrow>
          (case err of
             None \<Rightarrow> (ReadResultData p', OK)
           | Some EOF \<Rightarrow> (if n \<le> 0 then eofReadResult else ReadResultData p', OK)
           | Some ErrOther \<Rightarrow> (NilResult, EIO)))"

section \<open>Invariants of the builder\<close>

text \<open>
  What the loop of \<open>FromReaderAt\<close> keeps true of the store \<open>db\<close>, the heap \<open>hp\<close>
  and the pending set \<open>md\<close>: every directory pointer in the store is allocated, and a
  stored node that has no stat record yet (a placeholder) has its key in the pending set.
\<close>

definition storeOk :: "btreeStore \<Rightarrow> heap \<Rightarrow> string list \<Rightarrow> bool" where
  "storeOk db hp md =
     ((\<forall>k a. Get k db = DirPtr a \<longrightarrow> a < length hp)
      \<and> (\<forall>k. Get k db \<noteq> NilInfo \<and> fi_stat hp (Get k db) = None \<longrightarrow> k \<in> set md))"

definition stateOk :: "buildState \<Rightarrow> bool" where
  "stateOk s = storeOk (bs_db s) (bs_heap s) (missingDirs s)"

section \<open>Children lists and canonical paths\<close>

text \<open>
  \<open>ingested es s\<close> runs the loop body over \<open>es\<close> from the state \<open>s\<close> as
  \<open>ingestLoop\<close> does and records, for every entry, its key and the node
  (\<^verbatim>\<open>nodeInfo\<close>) that the loop stored for it and appended to its parent.
  \<open>childList seen k\<close> are the recorded nodes whose parent path is \<open>k\<close>, in the order
  of the archive.
\<close>

fun ingested :: "tarEntry list \<Rightarrow> buildState \<Rightarrow> (string \<times> FileInfo) list" where
  "ingested [] s = []"
| "ingested (e # es) s =
     (case insertNode e s of
        Inl err \<Rightarrow> []
      | Inr (nodeInfo, s1) \<Rightarrow>
          (case linkParent (headerNameEntry (h_Name (hdr e))) nodeInfo s1 of
             Inl err \<Rightarrow> []
           | Inr s2 \<Rightarrow> (headerNameEntry (h_Name (hdr e)), nodeInfo) # ingested es s2))"

definition childList :: "(string \<times> FileInfo) list \<Rightarrow> string \<Rightarrow> FileInfo list" where
  "childList seen k = map snd (filter (\<lambda>p. Dir (fst p) = k) seen)"

text \<open>
  The invariant of the loop that ties the children lists to the entries seen so far:
  every directory node of the store is allocated, its children list is \<open>childList\<close> of
  its key and its mode (once it has a stat record) is a directory mode; no two keys share
  a directory node; the parent key of every entry seen is in the store; and a plain node
  never has a directory mode.
\<close>

definition dirsOk :: "btreeStore \<Rightarrow> heap \<Rightarrow> (string \<times> FileInfo) list \<Rightarrow> bool" where
  "dirsOk db hp seen =
     (\<forall>k a. Get k db = DirPtr a \<longrightarrow>
        a < length hp \<and> entries (hp ! a) = childList seen k
        \<and> (\<forall>st. stat (node (hp ! a)) = Some st \<longrightarrow> IsDir (Mode st)))"

definition linked :: "btreeStore \<Rightarrow> heap \<Rightarrow> (string \<times> FileInfo) list \<Rightarrow> bool" where
  "linked db hp seen =
     (dirsOk db hp seen
      \<and> (\<forall>k k' a. Get k db = DirPtr a \<and> Get k' db = DirPtr a \<longrightarrow> k = k')
      \<and> (\<forall>p \<in> set seen. Get (Dir (fst p)) db \<noteq> NilInfo)
      \<and> (\<forall>k n st. Get k db = NodePtr n \<and> stat n = Some st \<longrightarrow> \<not> IsDir (Mode st)))"

text \<open>
  The shape of the keys that \<open>fuseNameToKey\<close> produces: a separator followed by
  elements joined by separators, none of them empty, \<^verbatim>\<open>.\<close> or \<^verbatim>\<open>..\<close>.
\<close>

definition goodElem :: "string \<Rightarrow> bool" where
  "goodElem c = (c \<noteq> [] \<and> sep \<notin> set c \<and> c \<noteq> ''.'' \<and> c \<noteq> ''..'')"

definition absPath :: "string list \<Rightarrow> string" where
  "absPath cs = [sep] @ JoinStrings cs [sep]"

section \<open>Example inputs\<close>

text \<open>
  A file owned by uid 1000 and gid 1000 that only its owner may read (mode 0400), with
  three bytes of content at offset 512 of the archive.
\<close>

definition exStat :: StatT where
  "exStat = \<lparr>Mode = 256, Owner = \<lparr>UID = 1000, GID = 1000\<rparr>,
            Atime = 0, Mtime = 0, Ctime = 0, Ino = 512, Size = 3\<rparr>"

definition exNode :: FileInfo where
  "exNode = NodePtr \<lparr>name = ''f'', stat = Some exStat\<rparr>"

definition exStream :: "byte list" where
  "exStream = replicate 512 0 @ [104, 105, 10] @ replicate 509 0"

definition exServer :: server where
  "exServer = Newserver (Add ''/f'' exNode NewBTreeStore) [] (bytesReader exStream)"

definition exFile :: file_t where
  "exFile = \<lparr>f_name = ''f'', f_ReaderAt = NewSectionReader (bytesReader exStream) 512 3\<rparr>"

text \<open>The store of \<^verbatim>\<open>TestAddGet\<close> (store\_test.go).\<close>

definition exAdds :: "(string \<times> FileInfo) list" where
  "exAdds =
     [(''/'', NodePtr \<lparr>name = [], stat = Some (exStat\<lparr>Mode := 755 OR ModeDir\<rparr>)\<rparr>),
      (''/foo'', NodePtr \<lparr>name = ''foo'', stat = Some (exStat\<lparr>Mode := 755 OR ModeDir\<rparr>)\<rparr>),
      (''/foo/bar'', NodePtr \<lparr>name = ''bar'', stat = Some (exStat\<lparr>Mode := 644\<rparr>)\<rparr>)]"

definition exStore :: btreeStore where
  "exStore = fold (\<lambda>(k, fi). Add k fi) exAdds NewBTreeStore"

text \<open>Archive entries: a header with a name, a mode and a size, and its position.\<close>

definition exEntry :: "string \<Rightarrow> FileMode \<Rightarrow> int \<Rightarrow> int \<Rightarrow> tarEntry" where
  "exEntry nm m sz p =
     \<lparr>hdr = \<lparr>h_Name = nm, h_FileMode = m, h_Size = sz, h_ModTime = 0, h_AccessTime = 0,
             h_ChangeTime = 0, h_Uid = 0, h_Gid = 0\<rparr>,
      pos = p\<rparr>"

definition exDirMode :: FileMode where
  "exDirMode = 493 OR ModeDir"

text \<open>An archive that holds \<^verbatim>\<open>foo/quux/hello\<close> and no directory header.\<close>

definition exHelloOnly :: "tarEntry list" where
  "exHelloOnly = [exEntry ''foo/quux/hello'' 420 5 512]"

text \<open>
  The archive of \<^verbatim>\<open>foo/quux/hello\<close> followed by the headers of its two parent
  directories; archives whose next entry merges into the root and into a placeholder; and
  the state of the loop after a whole archive, from a new store.
\<close>

definition exHelloDirs :: "tarEntry list" where
  "exHelloDirs =
     [exEntry ''foo/quux/hello'' 420 5 512,
      exEntry ''foo/quux/'' exDirMode 0 1536,
      exEntry ''foo/'' exDirMode 0 2048]"

definition exRootLast :: "tarEntry list" where
  "exRootLast = [exEntry ''a'' 420 1 512]"

definition exFooFirst :: "tarEntry list" where
  "exFooFirst = [exEntry ''foo/x'' 420 1 512]"

definition exState :: "tarEntry list \<Rightarrow> buildState" where
  "exState es = projr (ingestLoop es (seedRoot 0 0 NewBTreeStore []))"

definition exHelloServer :: server where
  "exHelloServer =
     Newserver (bs_db (exState exHelloDirs)) (bs_heap (exState exHelloDirs)) (bytesReader exStream)"

text \<open>
  The store of \<^verbatim>\<open>TestEntries\<close> (store\_test.go): plain nodes whose stat records
  hold a mode and nothing else, added in the order of the test. Then an archive with the
  same paths in the same order, and the server built from it.
\<close>

definition exTestStat :: "32 word \<Rightarrow> StatT" where
  "exTestStat m =
     \<lparr>Mode = m, Owner = \<lparr>UID = 0, GID = 0\<rparr>,
      Atime = zeroTime, Mtime = zeroTime, Ctime = zeroTime, Ino = 0, Size = 0\<rparr>"

definition exTestAdds :: "(string \<times> FileInfo) list" where
  "exTestAdds =
     [(''/'', NodePtr \<lparr>name = [], stat = Some (exTestStat (755 OR ModeDir))\<rparr>),
      (''/foo'', NodePtr \<lparr>name = ''foo'', stat = Some (exTestStat (755 OR ModeDir))\<rparr>),
      (''/bar'', NodePtr \<lparr>name = ''bar'', stat = Some (exTestStat (755 OR ModeDir))\<rparr>),
      (''/bar/baz'', NodePtr \<lparr>name = ''baz'', stat = Some (exTestStat 600)\<rparr>),
      (''/bar/quux'', NodePtr \<lparr>name = ''quux'', stat = Some (exTestStat (755 OR ModeDir))\<rparr>),
      (''/bar/quux/quack'', NodePtr \<lparr>name = ''quack'', stat = Some (exTestStat 600)\<rparr>)]"

definition exTestStore :: btreeStore where
  "exTestStore = fold (\<lambda>(k, fi). Add k fi) exTestAdds NewBTreeStore"

definition exTestArchive :: "tarEntry list" where
  "exTestArchive =
     [exEntry ''foo/'' exDirMode 0 512,
      exEntry ''bar/'' exDirMode 0 1024,
      exEntry ''bar/baz'' 384 0 1536,
      exEntry ''bar/quux/'' exDirMode 0 2048,
      exEntry ''bar/quux/quack'' 384 0 2560]"

definition exTestServer :: server where
  "exTestServer =
     Newserver (bs_db (exState exTestArchive)) (bs_heap (exState exTestArchive))
       (bytesReader exStream)"

section \<open>Permission evaluation\<close>

lemma perm_bit:
  assumes "n = 2 \<or> n = 5 \<or> n = 8"
  shows "(Perm m AND push_bit n 1 \<noteq> 0) = bit m n"
proof -
  have "bit (511 :: 32 word) n"
    using assms by (auto simp add: bit_iff_odd)
  then have "bit (Perm m) n = bit m n"
    by (simp add: Perm_def ModePerm_def bit_and_iff)
  then show ?thesis
    by (simp add: push_bit_of_1 and_exp_eq_0_iff_not_bit)
qed

lemma perm_bits:
  "(Perm m AND 4 \<noteq> 0) = bit m 2"
  "(Perm m AND 32 \<noteq> 0) = bit m 5"
  "(Perm m AND 256 \<noteq> 0) = bit m 8"
  using perm_bit [of 2 m] perm_bit [of 5 m] perm_bit [of 8 m] by simp_all

lemma fi_stat_not_nil: "fi_stat hp fi = Some st \<Longrightarrow> fi \<noteq> NilInfo"
  by (auto simp add: fi_stat_def fi_node_def)

lemma ex_get: "Get (fuseNameToKey ''f'') (srv_db exServer) = exNode"
  by code_simp

lemma ex_stat: "fi_stat (srv_heap exServer) exNode = Some exStat"
  by (simp add: fi_stat_def fi_node_def exNode_def)

lemma ex_own: "Owner exStat = \<lparr>UID = 1000, GID = 1000\<rparr>" "Perm (Mode exStat) = 256"
  by code_simp+

text \<open>
  C4. With the stat record \<open>st\<close> of the node, \<open>checkPermissions\<close> allows when bit 2 of
  the mode (read for others) is set; otherwise, when the caller's gid is the node's, it
  allows exactly when bit 5 (read for the group) is set; otherwise, when the caller's uid
  is the node's, exactly when bit 8 (read for the owner) is set; otherwise it denies.
\<close>

theorem checkPermissions_order:
  "fi_stat hp fi = Some st \<Longrightarrow>
   checkPermissions hp fi ctx =
     Inr (if bit (Mode st) 2 then True
          else if ctx_Gid ctx = GID (Owner st) then bit (Mode st) 5
          else if ctx_Uid ctx = UID (Owner st) then bit (Mode st) 8
          else False)"
  by (auto simp add: checkPermissions_def perm_bits Let_def)

theorem checkPermissions_order_witness:
  "fi_stat [] exNode = Some exStat
   \<and> checkPermissions [] exNode \<lparr>ctx_Uid = 1000, ctx_Gid = 7\<rparr> = Inr True
   \<and> checkPermissions [] exNode \<lparr>ctx_Uid = 1000, ctx_Gid = 1000\<rparr> = Inr False"
proof -
  have h: "fi_stat [] exNode = Some exStat"
    by (simp add: fi_stat_def fi_node_def exNode_def)
  have b: "bit (256 :: 32 word) 8" "\<not> bit (256 :: 32 word) 2" "\<not> bit (256 :: 32 word) 5"
    by (simp_all add: bit_iff_odd)
  show ?thesis
    using checkPermissions_order [OF h, of "\<lparr>ctx_Uid = 1000, ctx_Gid = 7\<rparr>"]
      checkPermissions_order [OF h, of "\<lparr>ctx_Uid = 1000, ctx_Gid = 1000\<rparr>"] h b
    by (simp add: exStat_def)
qed

section \<open>Attribute lookup and open\<close>

lemma GetAttr_denied:
  assumes "Get (fuseNameToKey nm) (srv_db s) = fi" and "fi_stat (srv_heap s) fi = Some st"
    and "checkPermissions (srv_heap s) fi ctx = Inr False"
  shows "GetAttr s nm ctx = Inr (None, EPERM)"
  using assms fi_stat_not_nil [OF assms(2)] by (simp add: GetAttr_def Let_def)

lemma GetAttr_allowed:
  assumes "Get (fuseNameToKey nm) (srv_db s) = fi" and "fi_stat (srv_heap s) fi = Some st"
    and "checkPermissions (srv_heap s) fi ctx = Inr True"
  shows "\<exists>a. GetAttr s nm ctx = Inr (Some a, OK)"
  using assms fi_stat_not_nil [OF assms(2)] by (simp add: GetAttr_def Let_def)

lemma Open_present:
  assumes "Get (fuseNameToKey nm) (srv_db s) = fi" and "fi_stat (srv_heap s) fi = Some st"
  shows "Open s nm flags ctx =
     Inr (Some \<lparr>f_name = fi_Name (srv_heap s) fi,
                f_ReaderAt = NewSectionReader (srv_stream s) (Ino st) (Size st)\<rparr>, OK)"
  using assms fi_stat_not_nil [OF assms(2)] by (simp add: Open_def Let_def)

text \<open>
  C2, as the code has it. For a node owned by uid 1000 and gid 1000 whose permission bits
  are 0400: \<open>GetAttr\<close> denies the caller with uid 2000 and gid 2000 and allows every
  caller with uid 1000 whose gid is not 1000; \<open>Open\<close> evaluates no permission and
  returns a handle to every caller.
\<close>

theorem owner_only_access:
  assumes get: "Get (fuseNameToKey nm) (srv_db s) = fi"
    and st: "fi_stat (srv_heap s) fi = Some st"
    and own: "Owner st = \<lparr>UID = 1000, GID = 1000\<rparr>"
    and perm: "Perm (Mode st) = 256"
  shows "GetAttr s nm \<lparr>ctx_Uid = 2000, ctx_Gid = 2000\<rparr> = Inr (None, EPERM)
       \<and> (\<forall>gid. gid \<noteq> 1000 \<longrightarrow>
             (\<exists>a. GetAttr s nm \<lparr>ctx_Uid = 1000, ctx_Gid = gid\<rparr> = Inr (Some a, OK)))
       \<and> (\<forall>flags ctx. \<exists>f. Open s nm flags ctx = Inr (Some f, OK))"
proof -
  have "checkPermissions (srv_heap s) fi \<lparr>ctx_Uid = 2000, ctx_Gid = 2000\<rparr> = Inr False"
    using st own perm by (simp add: checkPermissions_def)
  then have a: "GetAttr s nm \<lparr>ctx_Uid = 2000, ctx_Gid = 2000\<rparr> = Inr (None, EPERM)"
    by (rule GetAttr_denied [OF get st])
  have b: "\<exists>a. GetAttr s nm \<lparr>ctx_Uid = 1000, ctx_Gid = gid\<rparr> = Inr (Some a, OK)"
    if "gid \<noteq> 1000" for gid
  proof -
    have "checkPermissions (srv_heap s) fi \<lparr>ctx_Uid = 1000, ctx_Gid = gid\<rparr> = Inr True"
      using st own perm that by (auto simp add: checkPermissions_def)
    then show ?thesis by (rule GetAttr_allowed [OF get st])
  qed
  have c: "\<exists>f. Open s nm flags ctx = Inr (Some f, OK)" for flags ctx
    using Open_present [OF get st] by simp
  from a b c show ?thesis by blast
qed

theorem owner_only_access_witness:
  "GetAttr exServer ''f'' \<lparr>ctx_Uid = 2000, ctx_Gid = 2000\<rparr> = Inr (None, EPERM)
   \<and> (\<exists>a. GetAttr exServer ''f'' \<lparr>ctx_Uid = 1000, ctx_Gid = 2000\<rparr> = Inr (Some a, OK))
   \<and> (\<exists>f. Open exServer ''f'' 0 \<lparr>ctx_Uid = 2000, ctx_Gid = 2000\<rparr> = Inr (Some f, OK))"
  using owner_only_access [OF ex_get ex_stat ex_own] by simp

text \<open>
  C2 as stated fails twice on the example file (owner 1000/1000, mode 0400): \<open>Open\<close>
  gives the caller 2000/2000 a handle, and \<open>GetAttr\<close> denies the caller 1000/1000,
  whose gid selects the group class before the owner class is looked at.
\<close>

theorem owner_only_counterexample:
  "Get (fuseNameToKey ''f'') (srv_db exServer) = exNode
   \<and> fi_stat (srv_heap exServer) exNode = Some exStat
   \<and> Owner exStat = \<lparr>UID = 1000, GID = 1000\<rparr> \<and> Perm (Mode exStat) = 256
   \<and> (\<exists>f. Open exServer ''f'' 0 \<lparr>ctx_Uid = 2000, ctx_Gid = 2000\<rparr> = Inr (Some f, OK))
   \<and> GetAttr exServer ''f'' \<lparr>ctx_Uid = 1000, ctx_Gid = 1000\<rparr> = Inr (None, EPERM)"
proof -
  have "checkPermissions (srv_heap exServer) exNode \<lparr>ctx_Uid = 1000, ctx_Gid = 1000\<rparr> = Inr False"
    by code_simp
  then have "GetAttr exServer ''f'' \<lparr>ctx_Uid = 1000, ctx_Gid = 1000\<rparr> = Inr (None, EPERM)"
    by (rule GetAttr_denied [OF ex_get ex_stat])
  moreover have "\<exists>f. Open exServer ''f'' 0 \<lparr>ctx_Uid = 2000, ctx_Gid = 2000\<rparr> = Inr (Some f, OK)"
    using Open_present [OF ex_get ex_stat] by simp
  ultimately show ?thesis using ex_get ex_stat ex_own by simp
qed

section \<open>Reading through a file handle\<close>

lemma callReadAt_length:
  "callReadAt r p off = (n, p', err) \<Longrightarrow> length p' = length p \<and> n \<le> length p"
  by (auto simp add: callReadAt_def Let_def split: prod.splits)

lemma SectionReader_ReadAt_length:
  assumes "SectionReader_ReadAt s p off = (n, p', err)"
  shows "length p' = length p \<and> n \<le> length p"
proof (cases "off < 0 \<or> off \<ge> SectionReader_Size s")
  case True
  with assms show ?thesis by (simp add: SectionReader_ReadAt_def)
next
  case False
  note inside = this
  define off' where "off' = wrap64 (off + sr_base s)"
  define mx where "mx = wrap64 (sr_limit s - off')"
  show ?thesis
  proof (cases "int (length p) > mx")
    case True
    obtain n0 p0 e0
      where c: "callReadAt (sr_r s) (take (nat mx) p) off' = (n0, p0, e0)"
      by (cases "callReadAt (sr_r s) (take (nat mx) p) off'") auto
    from callReadAt_length [OF c]
    have l: "length p0 = length (take (nat mx) p)" "n0 \<le> length (take (nat mx) p)"
      by simp_all
    from assms inside True c have "n = n0" "p' = p0 @ drop (nat mx) p"
      by (simp_all add: SectionReader_ReadAt_def Let_def mx_def off'_def)
    with l show ?thesis by auto
  next
    case False
    with assms inside have "callReadAt (sr_r s) p off' = (n, p', err)"
      by (simp add: SectionReader_ReadAt_def Let_def mx_def off'_def)
    then show ?thesis by (rule callReadAt_length)
  qed
qed

lemma wrap64_id: "- (2 ^ 63) \<le> x \<Longrightarrow> x \<le> maxint64 \<Longrightarrow> wrap64 x = x"
  by (simp add: wrap64_def maxint64_def)

lemma NewSectionReader_fields:
  assumes "0 \<le> off" and "0 \<le> n" and "off + n \<le> maxint64"
  shows "sr_base (NewSectionReader r off n) = off \<and> sr_limit (NewSectionReader r off n) = off + n
     \<and> sr_r (NewSectionReader r off n) = r"
proof -
  have "wrap64 (maxint64 - n) = maxint64 - n"
    using assms by (intro wrap64_id) (simp_all add: maxint64_def)
  moreover have "wrap64 (n + off) = n + off"
    using assms by (intro wrap64_id) simp_all
  ultimately show ?thesis using assms by (simp add: NewSectionReader_def)
qed

text \<open>
  C10. When the positioned read on the handle's section reader delivers \<open>n\<close> bytes,
  \<open>0 < n < length p\<close>, together with end of data, \<open>Read\<close> reports \<open>OK\<close> and its
  result wraps the whole buffer \<open>p'\<close> (the caller's buffer after the read), which is as
  long as the buffer passed in, not only its first \<open>n\<close> bytes.
\<close>

theorem Read_short_read:
  assumes "SectionReader_ReadAt (f_ReaderAt f) p off = (n, p', Some EOF)"
    and "0 < n" and "n < length p"
  shows "file_Read f p off = (ReadResultData p', OK) \<and> length p' = length p"
  using assms SectionReader_ReadAt_length [OF assms(1)]
  by (simp add: file_Read_def)

theorem Read_short_read_witness:
  "SectionReader_ReadAt (f_ReaderAt exFile) [1, 2, 3, 4, 5] 1 = (2, [105, 10, 3, 4, 5], Some EOF)
   \<and> file_Read exFile [1, 2, 3, 4, 5] 1 = (ReadResultData [105, 10, 3, 4, 5], OK)"
proof -
  have h: "SectionReader_ReadAt (f_ReaderAt exFile) [1, 2, 3, 4, 5] 1
             = (2, [105, 10, 3, 4, 5], Some EOF)"
    by code_simp
  show ?thesis
    using Read_short_read [OF h] h by simp
qed

text \<open>
  C6. For a node with \<open>N\<close> bytes of content at its data offset \<open>Ino st\<close>, which the
  archive delivers there, \<open>Open\<close> returns a handle on the section from the offset to
  offset plus \<open>N\<close>; reading \<open>N\<close> bytes at 0 gives the content (the empty result when
  \<open>N\<close> is 0), and a read at \<open>N\<close> gives the empty end-of-data result, both with \<open>OK\<close>.
\<close>

theorem Open_Read_roundtrip:
  assumes get: "Get (fuseNameToKey nm) (srv_db s) = fi"
    and st: "fi_stat (srv_heap s) fi = Some st"
    and off: "0 \<le> Ino st" and sz: "Size st = int N" and bound: "Ino st + int N \<le> maxint64"
    and content: "0 < N \<longrightarrow> srv_stream s N (Ino st) = (content, None)"
    and len: "length content = N" "length p = N"
  shows "\<exists>f. Open s nm flags ctx = Inr (Some f, OK)
           \<and> sr_base (f_ReaderAt f) = Ino st
           \<and> sr_limit (f_ReaderAt f) = Ino st + int N
           \<and> file_Read f p 0 = (if N = 0 then eofReadResult else ReadResultData content, OK)
           \<and> file_Read f q (int N) = (eofReadResult, OK)"
proof -
  define f where "f = \<lparr>f_name = fi_Name (srv_heap s) fi,
                f_ReaderAt = NewSectionReader (srv_stream s) (Ino st) (Size st)\<rparr>"
  have o: "Open s nm flags ctx = Inr (Some f, OK)"
    unfolding f_def by (rule Open_present [OF get st])
  from sz have n0: "0 \<le> Size st" by simp
  from bound sz have b: "Ino st + Size st \<le> maxint64" by simp
  note flds = NewSectionReader_fields [OF off n0 b, of "srv_stream s"]
  have w: "wrap64 (int N) = int N" "wrap64 (Ino st) = Ino st" "wrap64 0 = 0"
    using off bound by (simp_all add: wrap64_id maxint64_def)
  have base: "sr_base (f_ReaderAt f) = Ino st" and lim: "sr_limit (f_ReaderAt f) = Ino st + int N"
    and r: "sr_r (f_ReaderAt f) = srv_stream s"
    using flds sz by (simp_all add: f_def)
  have eof: "file_Read f q (int N) = (eofReadResult, OK)"
    by (simp add: file_Read_def SectionReader_ReadAt_def SectionReader_Size_def base lim w)
  have rd: "file_Read f p 0 = (if N = 0 then eofReadResult else ReadResultData content, OK)"
  proof (cases "N = 0")
    case True
    then show ?thesis
      by (simp add: file_Read_def SectionReader_ReadAt_def SectionReader_Size_def base lim w)
  next
    case False
    with content have c: "srv_stream s N (Ino st) = (content, None)" by simp
    have "callReadAt (srv_stream s) p (Ino st) = (N, content, None)"
      using c len by (simp add: callReadAt_def)
    with False len show ?thesis
      by (simp add: file_Read_def SectionReader_ReadAt_def SectionReader_Size_def base lim r w Let_def)
  qed
  from o base lim rd eof show ?thesis by blast
qed

theorem Open_Read_roundtrip_witness:
  "\<exists>f. Open exServer ''f'' 0 \<lparr>ctx_Uid = 1000, ctx_Gid = 1000\<rparr> = Inr (Some f, OK)
       \<and> sr_base (f_ReaderAt f) = 512
       \<and> sr_limit (f_ReaderAt f) = 515
       \<and> file_Read f [0, 0, 0] 0 = (ReadResultData [104, 105, 10], OK)
       \<and> file_Read f [0, 0, 0] 3 = (eofReadResult, OK)"
proof -
  have h1: "0 \<le> Ino exStat" "Size exStat = int 3" "Ino exStat + int 3 \<le> maxint64"
    by (simp_all add: exStat_def maxint64_def)
  have h2: "0 < (3::nat) \<longrightarrow> srv_stream exServer 3 (Ino exStat) = ([104, 105, 10], None)"
    by code_simp
  have h3: "length [104, 105, 10 :: byte] = 3" "length [0, 0, 0 :: byte] = 3"
    by simp_all
  show ?thesis
    using Open_Read_roundtrip [OF ex_get ex_stat h1 h2 h3,
        of 0 "\<lparr>ctx_Uid = 1000, ctx_Gid = 1000\<rparr>" "[0, 0, 0]"]
    by (simp add: exStat_def)
qed

section \<open>The store: lookups and panics\<close>

lemma Less_equiv: "(\<not> Less x y \<and> \<not> Less y x) = (key x = key y)"
  by (auto simp add: Less_def Let_def)

lemma btGet_None_iff: "(btGet x s = None) = (key x \<notin> key ` set s)"
  by (induction s) (auto simp add: Less_equiv)

lemma btGet_Some: "btGet x s = Some y \<Longrightarrow> y \<in> set s \<and> key y = key x"
  by (induction s) (auto simp add: Less_equiv split: if_splits)

lemma keys_ReplaceOrInsert:
  "key ` set (ReplaceOrInsert x s) = insert (key x) (key ` set s)"
proof (induction s)
  case Nil
  then show ?case by simp
next
  case (Cons y ys)
  show ?case
  proof (cases "Less x y")
    case True
    then show ?thesis by simp
  next
    case nxy: False
    show ?thesis
    proof (cases "Less y x")
      case True
      with nxy Cons show ?thesis by auto
    next
      case False
      with nxy have "key x = key y" using Less_equiv [of x y] by simp
      with nxy False show ?thesis by auto
    qed
  qed
qed

lemma keys_Add: "key ` set (Add k fi s) = insert k (key ` set s)"
  by (simp add: Add_def keys_ReplaceOrInsert)

lemma keys_fold_Add:
  "key ` set (fold (\<lambda>(k', fi). Add k' fi) adds s) = fst ` set adds \<union> key ` set s"
proof (induction adds arbitrary: s)
  case Nil
  then show ?case by simp
next
  case (Cons a adds)
  obtain k' fi where a: "a = (k', fi)" by (cases a)
  have "key ` set (fold (\<lambda>(k', fi). Add k' fi) (a # adds) s)
          = fst ` set adds \<union> key ` set (Add k' fi s)"
    using Cons [of "Add k' fi s"] a by simp
  also have "\<dots> = fst ` set (a # adds) \<union> key ` set s"
    using a by (simp add: keys_Add)
  finally show ?case .
qed

lemma Get_absent: "k \<notin> key ` set s \<Longrightarrow> Get k s = NilInfo"
  using btGet_None_iff [of "\<lparr>key = k, info = NilInfo\<rparr>" s] by (simp add: Get_def)

lemma Entries_absent: "k \<notin> key ` set s \<Longrightarrow> Entries hp s k = Inl (Panic ''non-existent key'')"
  using btGet_None_iff [of "\<lparr>key = k, info = NilInfo\<rparr>" s] by (simp add: Entries_def)

lemma Entries_non_dir:
  assumes "fi_stat hp (Get k s) = Some st" and "\<not> IsDir (Mode st)"
  shows "Entries hp s k = Inl (Panic (''cannot list entries for non-dir: '' @ fi_Name hp (Get k s)))"
proof (cases "btGet \<lparr>key = k, info = NilInfo\<rparr> s")
  case None
  then have "Get k s = NilInfo" by (simp add: Get_def)
  with assms(1) show ?thesis by (simp add: fi_stat_def fi_node_def)
next
  case (Some sk)
  then have "Get k s = info sk" by (simp add: Get_def)
  with Some assms show ?thesis by (simp add: Entries_def)
qed

lemma btGet_ReplaceOrInsert_same:
  "key x = key y \<Longrightarrow> btGet x (ReplaceOrInsert y s) = Some y"
proof (induction s)
  case Nil
  then show ?case using Less_equiv [of x y] by simp
next
  case (Cons z zs)
  have xy: "\<not> Less x y \<and> \<not> Less y x" using Cons.prems Less_equiv [of x y] by simp
  show ?case
  proof (cases "Less y z")
    case True
    with xy show ?thesis by simp
  next
    case nyz: False
    show ?thesis
    proof (cases "Less z y")
      case True
      then have "key z \<noteq> key y" using Less_equiv [of z y] by auto
      then have "key x \<noteq> key z" using Cons.prems by simp
      then have "\<not> (\<not> Less x z \<and> \<not> Less z x)" using Less_equiv [of x z] by simp
      with nyz True Cons show ?thesis by auto
    next
      case False
      with nyz xy show ?thesis by simp
    qed
  qed
qed

lemma btGet_ReplaceOrInsert_other:
  "key x \<noteq> key y \<Longrightarrow> btGet x (ReplaceOrInsert y s) = btGet x s"
proof (induction s)
  case Nil
  then show ?case using Less_equiv [of x y] by simp
next
  case (Cons z zs)
  have xy: "\<not> (\<not> Less x y \<and> \<not> Less y x)" using Cons.prems Less_equiv [of x y] by simp
  show ?case
  proof (cases "Less y z")
    case True
    with xy show ?thesis by auto
  next
    case nyz: False
    show ?thesis
    proof (cases "Less z y")
      case True
      with nyz Cons show ?thesis by simp
    next
      case False
      with nyz have "key y = key z" using Less_equiv [of y z] by simp
      then have "key x \<noteq> key z" using Cons.prems by simp
      then have "\<not> (\<not> Less x z \<and> \<not> Less z x)" using Less_equiv [of x z] by simp
      with nyz False xy show ?thesis by auto
    qed
  qed
qed

lemma Get_Add: "Get k' (Add k fi s) = (if k' = k then fi else Get k' s)"
  using btGet_ReplaceOrInsert_same [of "\<lparr>key = k', info = NilInfo\<rparr>" "\<lparr>key = k, info = fi\<rparr>" s]
    btGet_ReplaceOrInsert_other [of "\<lparr>key = k', info = NilInfo\<rparr>" "\<lparr>key = k, info = fi\<rparr>" s]
  by (simp add: Get_def Add_def)

lemma Get_New: "Get k NewBTreeStore = NilInfo"
  by (simp add: Get_def NewBTreeStore_def)

text \<open>
  C8. \<open>Get\<close> is a total function that returns the nil interface value for a key that
  was never added to a new store (and for any key that no item of a store carries);
  \<open>Entries\<close> panics with \<^verbatim>\<open>non-existent key\<close> for such a key, and with
  \<^verbatim>\<open>cannot list entries for non-dir\<close> when the mode of the stored node is not a
  directory.
\<close>

theorem Get_absent_Entries_panic:
  "(k \<notin> fst ` set adds \<longrightarrow> Get k (fold (\<lambda>(k', fi). Add k' fi) adds NewBTreeStore) = NilInfo)
   \<and> (k \<notin> key ` set s \<longrightarrow>
        Get k s = NilInfo \<and> Entries hp s k = Inl (Panic ''non-existent key''))
   \<and> (fi_stat hp (Get k s) = Some st \<and> \<not> IsDir (Mode st) \<longrightarrow>
        Entries hp s k =
          Inl (Panic (''cannot list entries for non-dir: '' @ fi_Name hp (Get k s))))"
proof -
  have "k \<notin> fst ` set adds \<Longrightarrow> Get k (fold (\<lambda>(k', fi). Add k' fi) adds NewBTreeStore) = NilInfo"
    by (rule Get_absent) (simp add: keys_fold_Add NewBTreeStore_def)
  then show ?thesis
    using Get_absent [of k s] Entries_absent [of k s hp] Entries_non_dir [of hp k s st]
    by blast
qed

theorem Get_absent_Entries_panic_witness:
  "Get ''/not-exist'' (fold (\<lambda>(k', fi). Add k' fi) exAdds NewBTreeStore) = NilInfo
   \<and> Entries [] exStore ''/not-exist'' = Inl (Panic ''non-existent key'')
   \<and> Entries [] exStore ''/foo/bar'' = Inl (Panic ''cannot list entries for non-dir: bar'')"
proof -
  have h1: "''/not-exist'' \<notin> fst ` set exAdds" by (simp add: exAdds_def)
  have h2: "''/not-exist'' \<notin> key ` set exStore" by code_simp
  have h3: "fi_stat [] (Get ''/foo/bar'' exStore) = Some (exStat\<lparr>Mode := 644\<rparr>)
            \<and> \<not> IsDir (Mode (exStat\<lparr>Mode := 644\<rparr>))" by code_simp
  have h4: "fi_Name [] (Get ''/foo/bar'' exStore) = ''bar''" by code_simp
  show ?thesis
    using Get_absent_Entries_panic [of "''/not-exist''" exAdds exStore "[]" "exStat\<lparr>Mode := 644\<rparr>"]
      Get_absent_Entries_panic [of "''/foo/bar''" exAdds exStore "[]" "exStat\<lparr>Mode := 644\<rparr>"]
      h1 h2 h3 h4
    by simp
qed

section \<open>Ingestion: missing directories\<close>

lemma sublist_JoinStrings:
  "d \<in> set ss \<Longrightarrow> \<exists>u v. JoinStrings ss sp = u @ d @ v"
proof (induction ss sp rule: JoinStrings.induct)
  case (1 s)
  then show ?case by simp
next
  case (2 x s)
  then have "JoinStrings [x] s = [] @ d @ []" by simp
  then show ?case by blast
next
  case (3 x y ys s)
  show ?case
  proof (cases "d = x")
    case True
    then have "JoinStrings (x # y # ys) s = [] @ d @ (s @ JoinStrings (y # ys) s)" by simp
    then show ?thesis by blast
  next
    case False
    with 3 obtain u v where "JoinStrings (y # ys) s = u @ d @ v" by auto
    then have "JoinStrings (x # y # ys) s = (x @ s @ u) @ d @ v" by simp
    then show ?thesis by blast
  qed
qed

text \<open>
  C5. When the loop has run through all entries and \<open>missingDirs\<close> is not empty at the
  end of the stream, \<open>FromReaderAt\<close> returns the error of missing directory entries and
  no server, and every path still in \<open>missingDirs\<close> occurs in the message.
\<close>

theorem missing_dirs_fail:
  assumes "ingestLoop es (seedRoot euid egid store hp) = Inr s" and "missingDirs s \<noteq> []"
  shows "\<exists>msg. FromReaderAt euid egid ra es TarEOF store hp = Inl (ErrMissingDirs msg)
           \<and> (\<forall>d \<in> set (missingDirs s). sublist d msg)"
proof -
  have "sublist d (missingMessage (missingDirs s))" if "d \<in> set (missingDirs s)" for d
  proof -
    from sublist_JoinStrings [OF that] obtain u v
      where "JoinStrings (missingDirs s) '','' = u @ d @ v" by blast
    then have "missingMessage (missingDirs s) = (''missing directory entries: '' @ u) @ d @ v"
      by (simp add: missingMessage_def)
    then show ?thesis unfolding sublist_def by blast
  qed
  with assms show ?thesis by (simp add: FromReaderAt_def)
qed

theorem missing_dirs_fail_witness:
  "ingestLoop exHelloOnly (seedRoot 0 0 NewBTreeStore []) =
      Inr (projr (ingestLoop exHelloOnly (seedRoot 0 0 NewBTreeStore [])))
   \<and> missingDirs (projr (ingestLoop exHelloOnly (seedRoot 0 0 NewBTreeStore []))) = [''/foo/quux'']
   \<and> FromReaderAt 0 0 (bytesReader exStream) exHelloOnly TarEOF NewBTreeStore [] =
        Inl (ErrMissingDirs ''missing directory entries: /foo/quux'')"
proof -
  have h1: "ingestLoop exHelloOnly (seedRoot 0 0 NewBTreeStore []) =
      Inr (projr (ingestLoop exHelloOnly (seedRoot 0 0 NewBTreeStore [])))"
    by code_simp
  have h2: "missingDirs (projr (ingestLoop exHelloOnly (seedRoot 0 0 NewBTreeStore []))) = [''/foo/quux'']"
    by code_simp
  then have h3: "missingDirs (projr (ingestLoop exHelloOnly (seedRoot 0 0 NewBTreeStore []))) \<noteq> []"
    by simp
  from missing_dirs_fail [OF h1 h3, of "bytesReader exStream"] obtain msg where
    m: "FromReaderAt 0 0 (bytesReader exStream) exHelloOnly TarEOF NewBTreeStore [] = Inl (ErrMissingDirs msg)"
    by blast
  have "msg = ''missing directory entries: /foo/quux''"
    using m h1 h2 by (simp add: FromReaderAt_def missingMessage_def split: sum.splits)
  with m h1 h2 show ?thesis by simp
qed

section \<open>Ingestion keeps the store well formed\<close>

lemma fi_stat_append: "(\<forall>a. fi = DirPtr a \<longrightarrow> a < length hp) \<Longrightarrow> fi_stat (hp @ xs) fi = fi_stat hp fi"
  by (cases fi) (simp_all add: fi_stat_def fi_node_def nth_append)

lemma fi_stat_entries_update:
  "fi_stat (hp[a := (hp ! a)\<lparr>entries := es\<rparr>]) fi = fi_stat hp fi"
proof (cases fi)
  case (DirPtr b)
  then show ?thesis
    by (cases "a < length hp"; cases "a = b") (simp_all add: fi_stat_def fi_node_def list_update_beyond)
qed (simp_all add: fi_stat_def fi_node_def)

lemma fi_stat_node_update:
  "a < length hp \<Longrightarrow>
   fi_stat (hp[a := (hp ! a)\<lparr>node := nd\<rparr>]) fi = (if fi = DirPtr a then stat nd else fi_stat hp fi)"
  by (cases fi) (auto simp add: fi_stat_def fi_node_def)

lemma storeOk_alloc:
  assumes ok: "storeOk db hp md" and d: "stat (node d) = None \<longrightarrow> k \<in> set md'"
    and sub: "set md \<subseteq> set md'"
  shows "storeOk (Add k (DirPtr (length hp)) db) (hp @ [d]) md'"
  unfolding storeOk_def
proof (intro conjI allI impI)
  fix k' a
  assume "Get k' (Add k (DirPtr (length hp)) db) = DirPtr a"
  then have "a = length hp \<or> Get k' db = DirPtr a"
    by (simp add: Get_Add split: if_splits)
  with ok show "a < length (hp @ [d])" by (auto simp add: storeOk_def less_Suc_eq)
next
  fix k'
  assume a: "Get k' (Add k (DirPtr (length hp)) db) \<noteq> NilInfo
             \<and> fi_stat (hp @ [d]) (Get k' (Add k (DirPtr (length hp)) db)) = None"
  show "k' \<in> set md'"
  proof (cases "k' = k")
    case True
    with a have "stat (node d) = None" by (simp add: Get_Add fi_stat_def fi_node_def)
    with d True show ?thesis by simp
  next
    case False
    with a have g: "Get k' db \<noteq> NilInfo" and f: "fi_stat (hp @ [d]) (Get k' db) = None"
      by (simp_all add: Get_Add)
    from ok have "\<forall>a. Get k' db = DirPtr a \<longrightarrow> a < length hp" by (simp add: storeOk_def)
    from fi_stat_append [OF this] f have "fi_stat hp (Get k' db) = None" by simp
    with g ok have "k' \<in> set md" by (simp add: storeOk_def)
    with sub show ?thesis by auto
  qed
qed

lemma storeOk_node_update:
  assumes ok: "storeOk db hp md" and g: "Get k db = DirPtr a" and nd: "stat nd \<noteq> None"
  shows "storeOk (Add k (DirPtr a) db) (hp[a := (hp ! a)\<lparr>node := nd\<rparr>]) (removeAll k md)"
  unfolding storeOk_def
proof (intro conjI allI impI)
  fix k' b
  assume "Get k' (Add k (DirPtr a) db) = DirPtr b"
  with g have "Get k' db = DirPtr b" by (simp add: Get_Add split: if_splits)
  with ok show "b < length (hp[a := (hp ! a)\<lparr>node := nd\<rparr>])" by (simp add: storeOk_def)
next
  fix k'
  from ok g have a: "a < length hp" by (simp add: storeOk_def)
  have same: "Get k' (Add k (DirPtr a) db) = Get k' db" using g by (simp add: Get_Add)
  assume "Get k' (Add k (DirPtr a) db) \<noteq> NilInfo
          \<and> fi_stat (hp[a := (hp ! a)\<lparr>node := nd\<rparr>]) (Get k' (Add k (DirPtr a) db)) = None"
  then have n: "Get k' db \<noteq> NilInfo"
    and f: "(if Get k' db = DirPtr a then stat nd else fi_stat hp (Get k' db)) = None"
    by (simp_all add: same fi_stat_node_update [OF a])
  from f nd have "Get k' db \<noteq> DirPtr a" and "fi_stat hp (Get k' db) = None"
    by (auto split: if_splits)
  with n ok g show "k' \<in> set (removeAll k md)" by (auto simp add: storeOk_def)
qed

lemma storeOk_entries_update:
  assumes ok: "storeOk db hp md" and g: "Get k db = DirPtr a"
  shows "storeOk (Add k (DirPtr a) db) (hp[a := (hp ! a)\<lparr>entries := es\<rparr>]) md"
proof -
  have same: "Get k' (Add k (DirPtr a) db) = Get k' db" for k' using g by (simp add: Get_Add)
  from ok show ?thesis
    by (simp add: storeOk_def same fi_stat_entries_update)
qed

lemma storeOk_add_node:
  assumes ok: "storeOk db hp md" and nd: "stat nd \<noteq> None"
  shows "storeOk (Add k (NodePtr nd) db) hp md"
  unfolding storeOk_def
proof (intro conjI allI impI)
  fix k' b
  assume "Get k' (Add k (NodePtr nd) db) = DirPtr b"
  then have "Get k' db = DirPtr b" by (simp add: Get_Add split: if_splits)
  with ok show "b < length hp" by (simp add: storeOk_def)
next
  fix k'
  assume a: "Get k' (Add k (NodePtr nd) db) \<noteq> NilInfo
          \<and> fi_stat hp (Get k' (Add k (NodePtr nd) db)) = None"
  show "k' \<in> set md"
  proof (cases "k' = k")
    case True
    with a nd show ?thesis by (simp add: Get_Add fi_stat_def fi_node_def)
  next
    case False
    with a ok show ?thesis by (simp add: Get_Add storeOk_def)
  qed
qed

lemma insertNode_storeOk:
  assumes ok: "stateOk s" and ins: "insertNode e s = Inr (ni, s')"
  shows "stateOk s'"
proof -
  define k where "k = headerNameEntry (h_Name (hdr e))"
  define nd where "nd = \<lparr>name = h_Name (hdr e), stat = Some ((fillStat (hdr e))\<lparr>Ino := pos e\<rparr>)\<rparr>"
  have nd: "stat nd \<noteq> None" by (simp add: nd_def)
  from ok have ok': "storeOk (bs_db s) (bs_heap s) (missingDirs s)" by (simp add: stateOk_def)
  show ?thesis
  proof (cases "IsDir (h_FileMode (hdr e))")
    case False
    with ins have "s' = s\<lparr>bs_db := Add k (NodePtr nd) (bs_db s)\<rparr>"
      by (auto simp add: insertNode_def Let_def k_def nd_def)
    with storeOk_add_node [OF ok' nd, of k] show ?thesis by (simp add: stateOk_def)
  next
    case True
    show ?thesis
    proof (cases "Get k (bs_db s)")
      case NilInfo
      with True ins have s': "s' = s\<lparr>bs_heap := bs_heap s @ [\<lparr>node = nd, entries = []\<rparr>],
                      bs_db := Add k (DirPtr (length (bs_heap s))) (bs_db s)\<rparr>"
        by (auto simp add: insertNode_def Let_def k_def nd_def)
      have "storeOk (Add k (DirPtr (length (bs_heap s))) (bs_db s))
              (bs_heap s @ [\<lparr>node = nd, entries = []\<rparr>]) (missingDirs s)"
        by (rule storeOk_alloc [OF ok']) (simp_all add: nd)
      with s' show ?thesis by (simp add: stateOk_def)
    next
      case (NodePtr n)
      with True ins show ?thesis by (simp add: insertNode_def Let_def k_def)
    next
      case (DirPtr a)
      with True ins have s': "s' = s\<lparr>bs_heap := (bs_heap s)[a := (bs_heap s ! a)\<lparr>node := nd\<rparr>],
                      missingDirs := removeAll k (missingDirs s),
                      bs_db := Add k (DirPtr a) (bs_db s)\<rparr>"
        by (auto simp add: insertNode_def Let_def k_def nd_def)
      from storeOk_node_update [OF ok' DirPtr nd] s' show ?thesis by (simp add: stateOk_def)
    qed
  qed
qed

lemma linkParent_storeOk:
  assumes ok: "stateOk s" and lp: "linkParent k ni s = Inr s'"
  shows "stateOk s'"
proof -
  from ok have ok': "storeOk (bs_db s) (bs_heap s) (missingDirs s)" by (simp add: stateOk_def)
  show ?thesis
  proof (cases "Get (Dir k) (bs_db s)")
    case NilInfo
    with lp have s': "s' = s\<lparr>missingDirs := List.insert (Dir k) (missingDirs s),
                      bs_heap := bs_heap s @ [\<lparr>node = \<lparr>name = Base (Dir k), stat = None\<rparr>, entries = [ni]\<rparr>],
                      bs_db := Add (Dir k) (DirPtr (length (bs_heap s))) (bs_db s)\<rparr>"
      by (simp add: linkParent_def Let_def)
    have "storeOk (Add (Dir k) (DirPtr (length (bs_heap s))) (bs_db s))
              (bs_heap s @ [\<lparr>node = \<lparr>name = Base (Dir k), stat = None\<rparr>, entries = [ni]\<rparr>])
              (List.insert (Dir k) (missingDirs s))"
      by (rule storeOk_alloc [OF ok']) auto
    with s' show ?thesis by (simp add: stateOk_def)
  next
    case (NodePtr n)
    with lp show ?thesis by (simp add: linkParent_def Let_def)
  next
    case (DirPtr a)
    with lp have s': "s' = s\<lparr>bs_heap := (bs_heap s)[a := (bs_heap s ! a)\<lparr>entries := entries (bs_heap s ! a) @ [ni]\<rparr>],
                   bs_db := Add (Dir k) (DirPtr a) (bs_db s)\<rparr>"
      by (simp add: linkParent_def Let_def)
    from storeOk_entries_update [OF ok' DirPtr] s' show ?thesis by (simp add: stateOk_def)
  qed
qed

lemma ingestEntry_storeOk:
  assumes "stateOk s" and "ingestEntry e s = Inr s'"
  shows "stateOk s'"
proof -
  from assms(2) obtain ni s1 where 1: "insertNode e s = Inr (ni, s1)"
    and 2: "linkParent (headerNameEntry (h_Name (hdr e))) ni s1 = Inr s'"
    by (auto simp add: ingestEntry_def split: sum.splits)
  from insertNode_storeOk [OF assms(1) 1] have "stateOk s1" .
  from linkParent_storeOk [OF this 2] show ?thesis .
qed

lemma ingestLoop_storeOk:
  "stateOk s \<Longrightarrow> ingestLoop es s = Inr s' \<Longrightarrow> stateOk s'"
proof (induction es arbitrary: s)
  case Nil
  then show ?case by simp
next
  case (Cons e es)
  from Cons.prems(2) obtain s1 where 1: "ingestEntry e s = Inr s1" and 2: "ingestLoop es s1 = Inr s'"
    by (auto split: sum.splits)
  from ingestEntry_storeOk [OF Cons.prems(1) 1] have "stateOk s1" .
  from Cons.IH [OF this 2] show ?case .
qed

lemma seedRoot_storeOk: "stateOk (seedRoot euid egid NewBTreeStore [])"
  by (simp add: stateOk_def storeOk_def seedRoot_def Get_Add Get_New fi_stat_def fi_node_def)

lemma exState_Inr: "ingestLoop exRootLast (seedRoot 0 0 NewBTreeStore []) = Inr (exState exRootLast)"
  "ingestLoop exFooFirst (seedRoot 0 0 NewBTreeStore []) = Inr (exState exFooFirst)"
  "ingestLoop exHelloDirs (seedRoot 0 0 NewBTreeStore []) = Inr (exState exHelloDirs)"
  by code_simp+

lemma exHello_FromReaderAt:
  "FromReaderAt 0 0 (bytesReader exStream) exHelloDirs TarEOF NewBTreeStore [] = Inr exHelloServer"
proof -
  have "missingDirs (exState exHelloDirs) = []" by code_simp
  then show ?thesis
    by (simp add: FromReaderAt_def exState_Inr exHelloServer_def)
qed

text \<open>
  C9. On a server that \<open>FromReaderAt\<close> built in a new store, \<open>Open\<close> returns
  \<open>ENOENT\<close> when the store has no node at the key of the name, and a handle with
  \<open>OK\<close> when it has one, whatever the caller, the flags, the owner and the mode of the
  node: no permission is evaluated, and \<open>EPERM\<close> is never returned.
\<close>

theorem Open_no_permission_check:
  assumes "FromReaderAt euid egid ra es fin NewBTreeStore [] = Inr srv"
  shows "(Get (fuseNameToKey nm) (srv_db srv) = NilInfo \<longrightarrow>
            Open srv nm flags ctx = Inr (None, ENOENT))
       \<and> (Get (fuseNameToKey nm) (srv_db srv) \<noteq> NilInfo \<longrightarrow>
            (\<exists>f. Open srv nm flags ctx = Inr (Some f, OK)))"
proof -
  from assms obtain s where loop: "ingestLoop es (seedRoot euid egid NewBTreeStore []) = Inr s"
    and m: "missingDirs s = []" and srv: "srv = Newserver (bs_db s) (bs_heap s) ra"
    by (auto simp add: FromReaderAt_def split: sum.splits tarEnd.splits if_splits)
  from ingestLoop_storeOk [OF seedRoot_storeOk loop] have ok: "stateOk s" .
  have absent: "Open srv nm flags ctx = Inr (None, ENOENT)"
    if "Get (fuseNameToKey nm) (srv_db srv) = NilInfo"
    using that by (simp add: Open_def)
  have present: "\<exists>f. Open srv nm flags ctx = Inr (Some f, OK)"
    if "Get (fuseNameToKey nm) (srv_db srv) \<noteq> NilInfo"
  proof -
    from that ok m srv obtain st
      where "fi_stat (srv_heap srv) (Get (fuseNameToKey nm) (srv_db srv)) = Some st"
      by (auto simp add: stateOk_def storeOk_def Newserver_def)
    from Open_present [OF refl this] show ?thesis by simp
  qed
  from absent present show ?thesis by blast
qed

theorem Open_no_permission_check_witness:
  "Open exHelloServer ''nope'' 0 \<lparr>ctx_Uid = 2000, ctx_Gid = 2000\<rparr> = Inr (None, ENOENT)
   \<and> (\<exists>f. Open exHelloServer ''foo/quux/hello'' 0 \<lparr>ctx_Uid = 2000, ctx_Gid = 2000\<rparr> = Inr (Some f, OK))"
proof -
  have "Get (fuseNameToKey ''nope'') (srv_db exHelloServer) = NilInfo"
    and "Get (fuseNameToKey ''foo/quux/hello'') (srv_db exHelloServer) \<noteq> NilInfo"
    by code_simp+
  then show ?thesis
    using Open_no_permission_check [OF exHello_FromReaderAt, of "''nope''" 0 "\<lparr>ctx_Uid = 2000, ctx_Gid = 2000\<rparr>"]
      Open_no_permission_check [OF exHello_FromReaderAt, of "''foo/quux/hello''" 0 "\<lparr>ctx_Uid = 2000, ctx_Gid = 2000\<rparr>"]
    by simp
qed

section \<open>Ingestion: a directory entry merges into the node already stored\<close>

text \<open>
  C7. A directory entry whose key \<open>k\<close> is in the store with a directory node \<open>a\<close> (a
  placeholder, or the root) is merged into it, provided the node at the parent's key is
  not a plain node (the loop panics on that): the store still holds \<open>a\<close> at \<open>k\<close>, its
  node is the one built from the entry, its children list is the old one (followed by
  \<open>a\<close> itself when \<open>a\<close> is its own parent, as the root is), and \<open>k\<close> is no longer in
  \<open>missingDirs\<close>.
\<close>

theorem directory_merge:
  assumes dir: "IsDir (h_FileMode (hdr e))"
    and k: "k = headerNameEntry (h_Name (hdr e))"
    and g: "Get k (bs_db s) = DirPtr a"
    and a: "a < length (bs_heap s)"
    and par: "\<forall>n. Get (Dir k) (bs_db s) \<noteq> NodePtr n"
  shows "\<exists>s'. ingestEntry e s = Inr s'
     \<and> Get k (bs_db s') = DirPtr a
     \<and> node (bs_heap s' ! a) =
          \<lparr>name = h_Name (hdr e), stat = Some ((fillStat (hdr e))\<lparr>Ino := pos e\<rparr>)\<rparr>
     \<and> entries (bs_heap s' ! a) =
          entries (bs_heap s ! a) @ (if Get (Dir k) (bs_db s) = DirPtr a then [DirPtr a] else [])
     \<and> k \<notin> set (missingDirs s')"
proof -
  define nd where "nd = \<lparr>name = h_Name (hdr e), stat = Some ((fillStat (hdr e))\<lparr>Ino := pos e\<rparr>)\<rparr>"
  define s1 where "s1 = s\<lparr>bs_heap := (bs_heap s)[a := (bs_heap s ! a)\<lparr>node := nd\<rparr>],
                      missingDirs := removeAll k (missingDirs s),
                      bs_db := Add k (DirPtr a) (bs_db s)\<rparr>"
  have ins: "insertNode e s = Inr (DirPtr a, s1)"
    using dir g by (simp add: insertNode_def Let_def k [symmetric] nd_def s1_def)
  then have ie: "ingestEntry e s = linkParent k (DirPtr a) s1"
    by (simp add: ingestEntry_def k)
  have db1: "Get k' (bs_db s1) = Get k' (bs_db s)" for k'
    using g by (simp add: s1_def Get_Add)
  have hp1: "bs_heap s1 ! a = (bs_heap s ! a)\<lparr>node := nd\<rparr>" and len1: "a < length (bs_heap s1)"
    using a by (simp_all add: s1_def)
  have md1: "k \<notin> set (missingDirs s1)" by (simp add: s1_def)
  show ?thesis
  proof (cases "Get (Dir k) (bs_db s)")
    case NilInfo
    with g have ne: "Dir k \<noteq> k" by auto
    define s' where "s' = s1\<lparr>missingDirs := List.insert (Dir k) (missingDirs s1),
                      bs_heap := bs_heap s1 @ [\<lparr>node = \<lparr>name = Base (Dir k), stat = None\<rparr>, entries = [DirPtr a]\<rparr>],
                      bs_db := Add (Dir k) (DirPtr (length (bs_heap s1))) (bs_db s1)\<rparr>"
    have "ingestEntry e s = Inr s'"
      using NilInfo by (simp add: ie linkParent_def Let_def db1 s'_def)
    moreover have "Get k (bs_db s') = DirPtr a"
      using ne g by (simp add: s'_def Get_Add db1)
    moreover have "bs_heap s' ! a = (bs_heap s ! a)\<lparr>node := nd\<rparr>"
      using len1 hp1 by (simp add: s'_def nth_append)
    moreover have "k \<notin> set (missingDirs s')"
      using md1 ne by (simp add: s'_def)
    ultimately show ?thesis using NilInfo by (simp add: nd_def)
  next
    case (NodePtr n)
    with par show ?thesis by simp
  next
    case (DirPtr b)
    define s' where "s' = s1\<lparr>bs_heap := (bs_heap s1)[b := (bs_heap s1 ! b)\<lparr>entries := entries (bs_heap s1 ! b) @ [DirPtr a]\<rparr>],
                   bs_db := Add (Dir k) (DirPtr b) (bs_db s1)\<rparr>"
    have "ingestEntry e s = Inr s'"
      using DirPtr by (simp add: ie linkParent_def Let_def db1 s'_def)
    moreover have "Get k (bs_db s') = DirPtr a"
      using DirPtr g by (auto simp add: s'_def Get_Add db1)
    moreover have "bs_heap s' ! a =
        (if b = a then (bs_heap s ! a)\<lparr>node := nd, entries := entries (bs_heap s ! a) @ [DirPtr a]\<rparr>
         else (bs_heap s ! a)\<lparr>node := nd\<rparr>)"
      using len1 hp1 by (simp add: s'_def)
    moreover have "k \<notin> set (missingDirs s')"
      using md1 by (simp add: s'_def)
    ultimately show ?thesis using DirPtr by (auto simp add: nd_def)
  qed
qed

theorem directory_merge_witness:
  "(\<exists>s'. ingestEntry (exEntry ''./'' exDirMode 0 1536) (exState exRootLast) = Inr s'
      \<and> Get ''/'' (bs_db s') = DirPtr 0
      \<and> stat (node (bs_heap s' ! 0)) = Some ((fillStat (hdr (exEntry ''./'' exDirMode 0 1536)))\<lparr>Ino := 1536\<rparr>)
      \<and> map (fi_Name (bs_heap s')) (entries (bs_heap s' ! 0)) = [''a'', ''./'']
      \<and> ''/'' \<notin> set (missingDirs s'))
   \<and> missingDirs (exState exFooFirst) = [''/foo'']
   \<and> (\<exists>s'. ingestEntry (exEntry ''foo/'' exDirMode 0 1536) (exState exFooFirst) = Inr s'
      \<and> Get ''/foo'' (bs_db s') = DirPtr 1
      \<and> stat (node (bs_heap s' ! 1)) = Some ((fillStat (hdr (exEntry ''foo/'' exDirMode 0 1536)))\<lparr>Ino := 1536\<rparr>)
      \<and> map (fi_Name (bs_heap s')) (entries (bs_heap s' ! 1)) = [''foo/x'']
      \<and> missingDirs s' = [])"
proof -
  let ?r = "exEntry ''./'' exDirMode 0 1536" and ?f = "exEntry ''foo/'' exDirMode 0 1536"
  have r: "IsDir (h_FileMode (hdr ?r))" "''/'' = headerNameEntry (h_Name (hdr ?r))"
    "Get ''/'' (bs_db (exState exRootLast)) = DirPtr 0" "0 < length (bs_heap (exState exRootLast))"
    "Dir ''/'' = ''/''" "entries (bs_heap (exState exRootLast) ! 0) = [NodePtr \<lparr>name = ''a'', stat = Some ((fillStat (hdr (exEntry ''a'' 420 1 512)))\<lparr>Ino := 512\<rparr>)\<rparr>]"
    by code_simp+
  have f: "IsDir (h_FileMode (hdr ?f))" "''/foo'' = headerNameEntry (h_Name (hdr ?f))"
    "Get ''/foo'' (bs_db (exState exFooFirst)) = DirPtr 1" "1 < length (bs_heap (exState exFooFirst))"
    "Dir ''/foo'' = ''/''" "Get ''/'' (bs_db (exState exFooFirst)) = DirPtr 0"
    "entries (bs_heap (exState exFooFirst) ! 1) = [NodePtr \<lparr>name = ''foo/x'', stat = Some ((fillStat (hdr (exEntry ''foo/x'' 420 1 512)))\<lparr>Ino := 512\<rparr>)\<rparr>]"
    "missingDirs (exState exFooFirst) = [''/foo'']"
    by code_simp+
  have pr: "\<forall>n. Get (Dir ''/'') (bs_db (exState exRootLast)) \<noteq> NodePtr n"
    using r by simp
  have pf: "\<forall>n. Get (Dir ''/foo'') (bs_db (exState exFooFirst)) \<noteq> NodePtr n"
    using f by simp
  from directory_merge [OF r(1) r(2) r(3) r(4) pr] obtain s1 where
    1: "ingestEntry ?r (exState exRootLast) = Inr s1" "Get ''/'' (bs_db s1) = DirPtr 0"
      "node (bs_heap s1 ! 0) = \<lparr>name = h_Name (hdr ?r), stat = Some ((fillStat (hdr ?r))\<lparr>Ino := pos ?r\<rparr>)\<rparr>"
      "entries (bs_heap s1 ! 0) = entries (bs_heap (exState exRootLast) ! 0) @ [DirPtr 0]"
      "''/'' \<notin> set (missingDirs s1)"
    using r by auto
  from directory_merge [OF f(1) f(2) f(3) f(4) pf] obtain s2 where
    2: "ingestEntry ?f (exState exFooFirst) = Inr s2" "Get ''/foo'' (bs_db s2) = DirPtr 1"
      "node (bs_heap s2 ! 1) = \<lparr>name = h_Name (hdr ?f), stat = Some ((fillStat (hdr ?f))\<lparr>Ino := pos ?f\<rparr>)\<rparr>"
      "entries (bs_heap s2 ! 1) = entries (bs_heap (exState exFooFirst) ! 1)"
      "''/foo'' \<notin> set (missingDirs s2)"
    using f by auto
  have m2: "missingDirs (projr (ingestEntry ?f (exState exFooFirst))) = []" by code_simp
  have "map (fi_Name (bs_heap s1)) (entries (bs_heap s1 ! 0)) = [''a'', ''./'']"
    using 1 r by (simp add: fi_Name_def fi_node_def exEntry_def)
  moreover have "map (fi_Name (bs_heap s2)) (entries (bs_heap s2 ! 1)) = [''foo/x'']"
    using 2 f by (simp add: fi_Name_def fi_node_def exEntry_def)
  moreover have "missingDirs s2 = []" using m2 2(1) by simp
  ultimately show ?thesis using 1 2 f(8) by (simp add: exEntry_def)
qed

section \<open>Ingestion: parents that come after their children\<close>

lemma btGet_info: "btGet \<lparr>key = k, info = NilInfo\<rparr> s = Some sk \<Longrightarrow> info sk = Get k s"
  by (simp add: Get_def)

lemma Entries_dirNode:
  assumes "Get k s = DirPtr a" and "stat (node (hp ! a)) = Some st" and "IsDir (Mode st)"
  shows "Entries hp s k = Inr (entries (hp ! a))"
proof (cases "btGet \<lparr>key = k, info = NilInfo\<rparr> s")
  case None
  with assms(1) show ?thesis by (simp add: Get_def)
next
  case (Some sk)
  with assms(1) have "info sk = DirPtr a" by (simp add: Get_def)
  with Some assms show ?thesis
    by (simp add: Entries_def fi_stat_def fi_node_def dirNode_Entries_def)
qed


lemma IsDir_rootStat: "IsDir (Mode (rootStat euid egid))"
proof -
  have "bit (493 OR ModeDir :: 32 word) 31" by (simp add: bit_or_iff ModeDir_def bit_push_bit_iff)
  then have "(493 OR ModeDir) AND ModeDir \<noteq> (0 :: 32 word)"
    by (metis ModeDir_def and_exp_eq_0_iff_not_bit push_bit_of_1)
  then show ?thesis by (simp add: IsDir_def rootStat_def)
qed












section \<open>Ingestion: the children lists follow the archive\<close>

lemma linkedD:
  assumes "linked db hp seen"
  shows "Get k db = DirPtr a \<Longrightarrow> a < length hp"
    and "Get k db = DirPtr a \<Longrightarrow> entries (hp ! a) = childList seen k"
    and "Get k db = DirPtr a \<Longrightarrow> stat (node (hp ! a)) = Some st \<Longrightarrow> IsDir (Mode st)"
    and "Get k db = DirPtr a \<Longrightarrow> Get k' db = DirPtr a \<Longrightarrow> k = k'"
    and "p \<in> set seen \<Longrightarrow> Get (Dir (fst p)) db \<noteq> NilInfo"
    and "Get k db = NodePtr n \<Longrightarrow> stat n = Some st \<Longrightarrow> \<not> IsDir (Mode st)"
  using assms unfolding linked_def dirsOk_def by blast+

lemma childList_snoc:
  "childList (seen @ [(k, ni)]) k' = childList seen k' @ (if Dir k = k' then [ni] else [])"
  by (simp add: childList_def)

lemma childList_empty:
  assumes "linked db hp seen" and "Get k db = NilInfo"
  shows "childList seen k = []"
proof -
  have "Dir (fst p) \<noteq> k" if "p \<in> set seen" for p
    using linkedD(5) [OF assms(1) that] assms(2) by auto
  then show ?thesis by (simp add: childList_def filter_empty_conv)
qed

lemma linked_add_node:
  assumes l: "linked db hp seen" and nd: "stat nd = Some st" "\<not> IsDir (Mode st)"
  shows "linked (Add k (NodePtr nd) db) hp seen"
  unfolding linked_def dirsOk_def
proof (intro conjI allI impI ballI)
  fix k' a assume "Get k' (Add k (NodePtr nd) db) = DirPtr a"
  then have g: "Get k' db = DirPtr a" by (simp add: Get_Add split: if_splits)
  show "a < length hp" by (rule linkedD(1) [OF l g])
  show "entries (hp ! a) = childList seen k'" by (rule linkedD(2) [OF l g])
  fix st' assume "stat (node (hp ! a)) = Some st'"
  then show "IsDir (Mode st')" by (rule linkedD(3) [OF l g])
next
  fix k1 k2 a assume "Get k1 (Add k (NodePtr nd) db) = DirPtr a \<and> Get k2 (Add k (NodePtr nd) db) = DirPtr a"
  then have "Get k1 db = DirPtr a" "Get k2 db = DirPtr a" by (simp_all add: Get_Add split: if_splits)
  then show "k1 = k2" by (rule linkedD(4) [OF l])
next
  fix p assume "p \<in> set seen"
  from linkedD(5) [OF l this] show "Get (Dir (fst p)) (Add k (NodePtr nd) db) \<noteq> NilInfo"
    by (simp add: Get_Add)
next
  fix k' n st' assume a: "Get k' (Add k (NodePtr nd) db) = NodePtr n \<and> stat n = Some st'"
  show "\<not> IsDir (Mode st')"
  proof (cases "k' = k")
    case True
    with a nd show ?thesis by (simp add: Get_Add)
  next
    case False
    with a have "Get k' db = NodePtr n" "stat n = Some st'" by (simp_all add: Get_Add)
    then show ?thesis by (rule linkedD(6) [OF l])
  qed
qed

lemma linked_alloc:
  assumes l: "linked db hp seen" and nil: "Get k db = NilInfo"
    and d: "\<forall>st. stat (node d) = Some st \<longrightarrow> IsDir (Mode st)"
    and es: "entries d = childList seen' k"
    and dn: "\<forall>k'. k' \<noteq> k \<longrightarrow> childList seen' k' = childList seen k'"
    and sub: "\<forall>p \<in> set seen'. p \<in> set seen \<or> Dir (fst p) = k"
  shows "linked (Add k (DirPtr (length hp)) db) (hp @ [d]) seen'"
  unfolding linked_def dirsOk_def
proof (intro conjI allI impI ballI)
  fix k' a assume g': "Get k' (Add k (DirPtr (length hp)) db) = DirPtr a"
  have "a < length (hp @ [d]) \<and> entries ((hp @ [d]) ! a) = childList seen' k'
        \<and> (\<forall>st. stat (node ((hp @ [d]) ! a)) = Some st \<longrightarrow> IsDir (Mode st))"
  proof (cases "k' = k")
    case True
    with g' have "a = length hp" by (simp add: Get_Add)
    with True d es show ?thesis by simp
  next
    case False
    with g' have g: "Get k' db = DirPtr a" by (simp add: Get_Add)
    from linkedD(1) [OF l g] have a: "a < length hp" .
    with linkedD(2) [OF l g] linkedD(3) [OF l g] dn False show ?thesis
      by (simp add: nth_append)
  qed
  then show "a < length (hp @ [d])" and "entries ((hp @ [d]) ! a) = childList seen' k'"
    by simp_all
  fix st assume "stat (node ((hp @ [d]) ! a)) = Some st"
  with \<open>a < length (hp @ [d]) \<and> _\<close> show "IsDir (Mode st)" by blast
next
  fix k1 k2 a
  assume a: "Get k1 (Add k (DirPtr (length hp)) db) = DirPtr a
             \<and> Get k2 (Add k (DirPtr (length hp)) db) = DirPtr a"
  have fresh: "Get k' db \<noteq> DirPtr (length hp)" for k'
    using linkedD(1) [OF l, of k' "length hp"] by auto
  show "k1 = k2"
  proof (cases "k1 = k")
    case True
    with a have "a = length hp" by (simp add: Get_Add)
    with a fresh [of k2] have "k2 = k" by (auto simp add: Get_Add split: if_splits)
    with True show ?thesis by simp
  next
    case False
    with a have g1: "Get k1 db = DirPtr a" by (simp add: Get_Add)
    with fresh [of k1] have "a \<noteq> length hp" by auto
    with a have "Get k2 db = DirPtr a" by (auto simp add: Get_Add split: if_splits)
    with g1 show ?thesis by (rule linkedD(4) [OF l])
  qed
next
  fix p assume "p \<in> set seen'"
  with sub have "p \<in> set seen \<or> Dir (fst p) = k" by blast
  then show "Get (Dir (fst p)) (Add k (DirPtr (length hp)) db) \<noteq> NilInfo"
    using linkedD(5) [OF l, of p] by (auto simp add: Get_Add)
next
  fix k' n st assume "Get k' (Add k (DirPtr (length hp)) db) = NodePtr n \<and> stat n = Some st"
  then have "Get k' db = NodePtr n" "stat n = Some st" by (simp_all add: Get_Add split: if_splits)
  then show "\<not> IsDir (Mode st)" by (rule linkedD(6) [OF l])
qed

lemma linked_same_db:
  assumes g: "Get k db = DirPtr a"
  shows "linked (Add k (DirPtr a) db) hp seen = linked db hp seen"
proof -
  have "Get k' (Add k (DirPtr a) db) = Get k' db" for k'
    using g by (simp add: Get_Add)
  then show ?thesis by (simp add: linked_def dirsOk_def)
qed

lemma linked_node_update:
  assumes l: "linked db hp seen" and g: "Get k db = DirPtr a"
    and nd: "\<forall>st. stat nd = Some st \<longrightarrow> IsDir (Mode st)"
  shows "linked (Add k (DirPtr a) db) (hp[a := (hp ! a)\<lparr>node := nd\<rparr>]) seen"
proof -
  have a: "a < length hp" by (rule linkedD(1) [OF l g])
  have "dirsOk db (hp[a := (hp ! a)\<lparr>node := nd\<rparr>]) seen"
    unfolding dirsOk_def
  proof (intro allI impI conjI)
    fix k' b assume g': "Get k' db = DirPtr b"
    show "b < length (hp[a := (hp ! a)\<lparr>node := nd\<rparr>])" using linkedD(1) [OF l g'] by simp
    show "entries (hp[a := (hp ! a)\<lparr>node := nd\<rparr>] ! b) = childList seen k'"
      using linkedD(2) [OF l g'] a by (cases "b = a") simp_all
    fix st assume "stat (node (hp[a := (hp ! a)\<lparr>node := nd\<rparr>] ! b)) = Some st"
    then show "IsDir (Mode st)"
      using linkedD(3) [OF l g', of st] a nd by (cases "b = a") simp_all
  qed
  with l have "linked db (hp[a := (hp ! a)\<lparr>node := nd\<rparr>]) seen"
    unfolding linked_def by simp
  then show ?thesis by (simp add: linked_same_db [OF g])
qed

lemma linked_parent_append:
  assumes l: "linked db hp seen" and g: "Get (Dir k) db = DirPtr a"
  shows "linked (Add (Dir k) (DirPtr a) db)
           (hp[a := (hp ! a)\<lparr>entries := entries (hp ! a) @ [ni]\<rparr>]) (seen @ [(k, ni)])"
proof -
  let ?hp = "hp[a := (hp ! a)\<lparr>entries := entries (hp ! a) @ [ni]\<rparr>]"
  have a: "a < length hp" by (rule linkedD(1) [OF l g])
  have 1: "dirsOk db ?hp (seen @ [(k, ni)])"
    unfolding dirsOk_def
  proof (intro allI impI conjI)
    fix k' b assume g': "Get k' db = DirPtr b"
    show "b < length ?hp" using linkedD(1) [OF l g'] by simp
    show "entries (?hp ! b) = childList (seen @ [(k, ni)]) k'"
    proof (cases "b = a")
      case True
      with g g' have "k' = Dir k" using linkedD(4) [OF l g' ] by simp
      with True a linkedD(2) [OF l g] show ?thesis by (simp add: childList_snoc)
    next
      case False
      with g g' have "k' \<noteq> Dir k" by auto
      with False linkedD(2) [OF l g'] show ?thesis by (simp add: childList_snoc)
    qed
    fix st assume "stat (node (?hp ! b)) = Some st"
    then show "IsDir (Mode st)"
      using linkedD(3) [OF l g', of st] a by (cases "b = a") simp_all
  qed
  have 2: "\<forall>p \<in> set (seen @ [(k, ni)]). Get (Dir (fst p)) db \<noteq> NilInfo"
    using linkedD(5) [OF l] g by auto
  from l 1 2 have "linked db ?hp (seen @ [(k, ni)])"
    unfolding linked_def by simp
  then show ?thesis by (simp add: linked_same_db [OF g])
qed

lemma linked_parent_alloc:
  assumes l: "linked db hp seen" and nil: "Get (Dir k) db = NilInfo"
  shows "linked (Add (Dir k) (DirPtr (length hp)) db)
           (hp @ [\<lparr>node = \<lparr>name = nm, stat = None\<rparr>, entries = [ni]\<rparr>]) (seen @ [(k, ni)])"
proof (rule linked_alloc [OF l nil])
  show "\<forall>st. stat (node \<lparr>node = \<lparr>name = nm, stat = None\<rparr>, entries = [ni]\<rparr>) = Some st \<longrightarrow> IsDir (Mode st)"
    by simp
  show "entries \<lparr>node = \<lparr>name = nm, stat = None\<rparr>, entries = [ni]\<rparr> = childList (seen @ [(k, ni)]) (Dir k)"
    using childList_empty [OF l nil] by (simp add: childList_snoc)
  show "\<forall>k'. k' \<noteq> Dir k \<longrightarrow> childList (seen @ [(k, ni)]) k' = childList seen k'"
    by (auto simp add: childList_snoc)
  show "\<forall>p\<in>set (seen @ [(k, ni)]). p \<in> set seen \<or> Dir (fst p) = Dir k"
    by auto
qed


lemma Mode_fillStat: "Mode ((fillStat h)\<lparr>Ino := p\<rparr>) = h_FileMode h"
  by (simp add: fillStat_def)

lemma ingestEntry_linked:
  assumes l: "linked (bs_db s) (bs_heap s) seen" and ie: "ingestEntry e s = Inr s'"
  shows "\<exists>ni. ingested [e] s = [(headerNameEntry (h_Name (hdr e)), ni)]
           \<and> ingested (e # es) s = (headerNameEntry (h_Name (hdr e)), ni) # ingested es s'
           \<and> linked (bs_db s') (bs_heap s') (seen @ [(headerNameEntry (h_Name (hdr e)), ni)])"
proof -
  define k where "k = headerNameEntry (h_Name (hdr e))"
  define nd where "nd = \<lparr>name = h_Name (hdr e), stat = Some ((fillStat (hdr e))\<lparr>Ino := pos e\<rparr>)\<rparr>"
  from ie obtain ni s1 where ins: "insertNode e s = Inr (ni, s1)"
    and lp: "linkParent k ni s1 = Inr s'"
    by (auto simp add: ingestEntry_def k_def split: sum.splits)
  have tr: "ingested [e] s = [(k, ni)]" "ingested (e # es) s = (k, ni) # ingested es s'"
    using ins lp by (simp_all add: k_def)
  have l1: "linked (bs_db s1) (bs_heap s1) seen"
  proof (cases "IsDir (h_FileMode (hdr e))")
    case False
    with ins have "s1 = s\<lparr>bs_db := Add k (NodePtr nd) (bs_db s)\<rparr>"
      by (auto simp add: insertNode_def Let_def k_def nd_def)
    moreover have "linked (Add k (NodePtr nd) (bs_db s)) (bs_heap s) seen"
      by (rule linked_add_node [OF l, where st = "(fillStat (hdr e))\<lparr>Ino := pos e\<rparr>"])
        (simp_all add: nd_def Mode_fillStat False)
    ultimately show ?thesis by simp
  next
    case True
    have ndok: "\<forall>st. stat nd = Some st \<longrightarrow> IsDir (Mode st)"
      using True by (simp add: nd_def Mode_fillStat)
    show ?thesis
    proof (cases "Get k (bs_db s)")
      case NilInfo
      with True ins have "s1 = s\<lparr>bs_heap := bs_heap s @ [\<lparr>node = nd, entries = []\<rparr>],
                      bs_db := Add k (DirPtr (length (bs_heap s))) (bs_db s)\<rparr>"
        by (auto simp add: insertNode_def Let_def k_def nd_def)
      moreover have "linked (Add k (DirPtr (length (bs_heap s))) (bs_db s))
          (bs_heap s @ [\<lparr>node = nd, entries = []\<rparr>]) seen"
        by (rule linked_alloc [OF l NilInfo]) (simp_all add: ndok childList_empty [OF l NilInfo])
      ultimately show ?thesis by simp
    next
      case (NodePtr n)
      with True ins show ?thesis by (simp add: insertNode_def Let_def k_def)
    next
      case (DirPtr a)
      with True ins have "s1 = s\<lparr>bs_heap := (bs_heap s)[a := (bs_heap s ! a)\<lparr>node := nd\<rparr>],
                      missingDirs := removeAll k (missingDirs s),
                      bs_db := Add k (DirPtr a) (bs_db s)\<rparr>"
        by (auto simp add: insertNode_def Let_def k_def nd_def)
      with linked_node_update [OF l DirPtr ndok] show ?thesis by simp
    qed
  qed
  have "linked (bs_db s') (bs_heap s') (seen @ [(k, ni)])"
  proof (cases "Get (Dir k) (bs_db s1)")
    case NilInfo
    with lp have "s' = s1\<lparr>missingDirs := List.insert (Dir k) (missingDirs s1),
                      bs_heap := bs_heap s1 @ [\<lparr>node = \<lparr>name = Base (Dir k), stat = None\<rparr>, entries = [ni]\<rparr>],
                      bs_db := Add (Dir k) (DirPtr (length (bs_heap s1))) (bs_db s1)\<rparr>"
      by (simp add: linkParent_def Let_def)
    with linked_parent_alloc [OF l1 NilInfo] show ?thesis by simp
  next
    case (NodePtr n)
    with lp show ?thesis by (simp add: linkParent_def Let_def)
  next
    case (DirPtr a)
    with lp have "s' = s1\<lparr>bs_heap := (bs_heap s1)[a := (bs_heap s1 ! a)\<lparr>entries := entries (bs_heap s1 ! a) @ [ni]\<rparr>],
                   bs_db := Add (Dir k) (DirPtr a) (bs_db s1)\<rparr>"
      by (simp add: linkParent_def Let_def)
    with linked_parent_append [OF l1 DirPtr] show ?thesis by simp
  qed
  with tr show ?thesis unfolding k_def by blast
qed

lemma ingestLoop_linked:
  "linked (bs_db s) (bs_heap s) seen \<Longrightarrow> ingestLoop es s = Inr s'
     \<Longrightarrow> linked (bs_db s') (bs_heap s') (seen @ ingested es s)"
proof (induction es arbitrary: s seen)
  case Nil
  then show ?case by simp
next
  case (Cons e es)
  from Cons.prems(2) obtain s1 where 1: "ingestEntry e s = Inr s1" and 2: "ingestLoop es s1 = Inr s'"
    by (auto split: sum.splits)
  from ingestEntry_linked [OF Cons.prems(1) 1, of es] obtain ni
    where tr: "ingested (e # es) s = (headerNameEntry (h_Name (hdr e)), ni) # ingested es s1"
      and l1: "linked (bs_db s1) (bs_heap s1) (seen @ [(headerNameEntry (h_Name (hdr e)), ni)])"
    by blast
  from Cons.IH [OF l1 2] tr show ?case by simp
qed

lemma seedRoot_linked:
  "linked (bs_db (seedRoot euid egid NewBTreeStore [])) (bs_heap (seedRoot euid egid NewBTreeStore [])) []"
  by (auto simp add: linked_def dirsOk_def seedRoot_def Get_Add Get_New childList_def IsDir_rootStat
      split: if_splits)
section \<open>Canonical keys and their parents\<close>

lemma splitSep_nonempty: "splitSep p \<noteq> []"
  by (induction p) (auto split: list.splits)

lemma splitSep_no_sep: "e \<in> set (splitSep p) \<Longrightarrow> sep \<notin> set e"
proof (induction p arbitrary: e)
  case Nil
  then show ?case by simp
next
  case (Cons c cs)
  show ?case
  proof (cases "c = sep")
    case True
    with Cons show ?thesis by auto
  next
    case False
    obtain x xs where sp: "splitSep cs = x # xs"
      using splitSep_nonempty [of cs] by (cases "splitSep cs") auto
    with False Cons.prems have "e = c # x \<or> e \<in> set xs" by simp
    with sp Cons.IH [of x] Cons.IH [of e] False show ?thesis by auto
  qed
qed

lemma splitSep_plain: "sep \<notin> set x \<Longrightarrow> splitSep x = [x]"
  by (induction x) auto

lemma splitSep_append: "sep \<notin> set x \<Longrightarrow> splitSep (x @ sep # r) = x # splitSep r"
  by (induction x) auto

lemma cleanElems_good:
  "\<forall>c \<in> set out. goodElem c \<Longrightarrow> \<forall>e \<in> set es. sep \<notin> set e
     \<Longrightarrow> \<forall>c \<in> set (cleanElems True out es). goodElem c"
proof (induction es arbitrary: out)
  case Nil
  then show ?case by simp
next
  case (Cons e es)
  have es: "\<forall>e \<in> set es. sep \<notin> set e" using Cons.prems(2) by simp
  show ?case
  proof (cases "e = [] \<or> e = ''.''")
    case True
    then show ?thesis using Cons.IH [OF Cons.prems(1) es] by auto
  next
    case False
    note ne = this
    show ?thesis
    proof (cases "e = ''..''")
      case True
      show ?thesis
      proof (cases out)
        case Nil
        with True ne Cons.IH [OF Cons.prems(1) es] show ?thesis by simp
      next
        case (Cons x xs)
        with Cons.prems(1) have "x \<noteq> ''..''" and "\<forall>c \<in> set xs. goodElem c"
          by (auto simp add: goodElem_def)
        with True ne Cons Cons.IH [of xs, OF _ es] show ?thesis by simp
      qed
    next
      case False
      with ne Cons.prems have "\<forall>c \<in> set (e # out). goodElem c"
        by (auto simp add: goodElem_def)
      from Cons.IH [OF this es] False ne show ?thesis by simp
    qed
  qed
qed

lemma cleanElems_good_id:
  "\<forall>c \<in> set cs. goodElem c \<Longrightarrow> cleanElems r out (cs @ rest) = cleanElems r (rev cs @ out) rest"
  by (induction cs arbitrary: out) (auto simp add: goodElem_def)

lemma Clean_rooted:
  "Clean (sep # p) = absPath (cleanElems True [] (splitSep (sep # p)))"
  by (simp add: Clean_def absPath_def)

lemma fuseNameToKey_canon:
  "\<exists>cs. (\<forall>c \<in> set cs. goodElem c) \<and> fuseNameToKey nm = absPath cs"
proof -
  have "fuseNameToKey nm = absPath (cleanElems True [] (splitSep (sep # sep # nm)))"
    by (simp add: fuseNameToKey_def Join2_def Clean_rooted)
  moreover have "\<forall>c \<in> set (cleanElems True [] (splitSep (sep # sep # nm))). goodElem c"
    by (rule cleanElems_good) (simp_all add: splitSep_no_sep del: splitSep.simps)
  ultimately show ?thesis by blast
qed

lemma absPath_snoc:
  "absPath (cs @ [x]) = (if cs = [] then [] else absPath cs) @ sep # x"
proof (induction cs rule: JoinStrings.induct [where ?a1.0 = "[sep]", case_names Nil One More])
  case Nil
  then show ?case by (simp add: absPath_def)
next
  case (One y)
  then show ?case by (simp add: absPath_def)
next
  case (More y z zs)
  then show ?case by (simp add: absPath_def)
qed


lemma splitSep_Join:
  "cs \<noteq> [] \<Longrightarrow> \<forall>c \<in> set cs. sep \<notin> set c
     \<Longrightarrow> splitSep (JoinStrings cs [sep] @ sep # r) = cs @ splitSep r"
proof (induction cs "[sep]" rule: JoinStrings.induct)
  case 1
  then show ?case by simp
next
  case (2 x)
  then show ?case by (simp add: splitSep_append del: splitSep.simps)
next
  case (3 x y ys)
  then have "splitSep (JoinStrings (y # ys) [sep] @ sep # r) = (y # ys) @ splitSep r"
    by simp
  moreover have "sep \<notin> set x" using 3 by simp
  ultimately show ?case
    using splitSep_append [of x "JoinStrings (y # ys) [sep] @ sep # r"]
    by (simp del: splitSep.simps)
qed

lemma Clean_absPath_slash:
  assumes "\<forall>c \<in> set cs. goodElem c"
  shows "Clean ((if cs = [] then [] else absPath cs) @ [sep]) = absPath cs"
proof (cases "cs = []")
  case True
  then show ?thesis by (simp add: Clean_def absPath_def)
next
  case False
  from assms have ns: "\<forall>c \<in> set cs. sep \<notin> set c" by (simp add: goodElem_def)
  have "splitSep (absPath cs @ [sep]) = [] # cs @ [[]]"
    using splitSep_Join [OF False ns, of "[]"] by (simp add: absPath_def)
  moreover have "cleanElems True [] ([] # cs @ [[]]) = cs"
    using cleanElems_good_id [OF assms, of True "[]" "[[]]"] by simp
  ultimately show ?thesis
    using False by (simp add: Clean_def absPath_def)
qed

lemma uptoLastSep_snoc: "sep \<notin> set x \<Longrightarrow> uptoLastSep (p @ sep # x) = p @ [sep]"
proof -
  assume "sep \<notin> set x"
  then have "dropWhile (\<lambda>c. c \<noteq> sep) (rev x @ sep # rev p) = sep # rev p"
    by (auto simp add: dropWhile_append3)
  then show ?thesis by (simp add: uptoLastSep_def)
qed

lemma Dir_absPath_snoc:
  assumes "\<forall>c \<in> set cs. goodElem c" and "goodElem x"
  shows "Dir (absPath (cs @ [x])) = absPath cs"
proof -
  from assms(2) have "sep \<notin> set x" by (simp add: goodElem_def)
  then have "uptoLastSep (absPath (cs @ [x])) = (if cs = [] then [] else absPath cs) @ [sep]"
    by (simp add: absPath_snoc uptoLastSep_snoc)
  with Clean_absPath_slash [OF assms(1)] show ?thesis by (simp add: Dir_def)
qed

lemma Dir_root: "Dir (absPath []) = absPath []"
  by (simp add: Dir_def uptoLastSep_def absPath_def Clean_def)

lemma CountSep_Join:
  "\<forall>c \<in> set cs. sep \<notin> set c \<Longrightarrow> CountSep (JoinStrings cs [sep]) = length cs - 1"
proof (induction cs "[sep]" rule: JoinStrings.induct)
  case 1
  then show ?case by (simp add: CountSep_def)
next
  case (2 x)
  then show ?case by (auto simp add: CountSep_def filter_empty_conv)
next
  case (3 x y ys)
  then have "CountSep (JoinStrings (y # ys) [sep]) = length ys" by simp
  moreover have "filter (\<lambda>c. c = sep) x = []" using 3 by (auto simp add: filter_empty_conv)
  ultimately show ?case by (simp add: CountSep_def)
qed

lemma CountSep_absPath:
  "\<forall>c \<in> set cs. goodElem c \<Longrightarrow> CountSep (absPath cs) = (if cs = [] then 1 else length cs)"
proof -
  assume "\<forall>c \<in> set cs. goodElem c"
  then have "\<forall>c \<in> set cs. sep \<notin> set c" by (simp add: goodElem_def)
  from CountSep_Join [OF this] show ?thesis
    by (cases cs) (simp_all add: absPath_def CountSep_def)
qed

lemma CountSep_append: "CountSep (a @ b) = CountSep a + CountSep b"
  by (simp add: CountSep_def)

lemma child_in_range:
  assumes canon: "c = fuseNameToKey nm" and ne: "c \<noteq> Dir c"
  shows "\<not> Less \<lparr>key = c, info = i1\<rparr> \<lparr>key = Dir c, info = i2\<rparr>
         \<and> Less \<lparr>key = c, info = i1\<rparr> \<lparr>key = Dir c @ ''//'', info = i3\<rparr>"
proof -
  from fuseNameToKey_canon [of nm] canon obtain cs'
    where good': "\<forall>c \<in> set cs'. goodElem c" and c: "c = absPath cs'" by auto
  from ne c Dir_root have "cs' \<noteq> []" by auto
  then obtain cs x where cs': "cs' = cs @ [x]" by (metis rev_exhaust)
  with good' have good: "\<forall>c \<in> set cs. goodElem c" and gx: "goodElem x" by simp_all
  have d: "Dir c = absPath cs" using Dir_absPath_snoc [OF good gx] c cs' by simp
  have n1: "CountSep c = length cs + 1" using CountSep_absPath [OF good'] c cs' by simp
  have n2: "CountSep (Dir c) = (if cs = [] then 1 else length cs)"
    using CountSep_absPath [OF good] d by simp
  have n3: "CountSep (Dir c @ ''//'') = CountSep (Dir c) + 2"
    by (simp add: CountSep_append) (simp add: CountSep_def sep_def)
  show ?thesis
  proof (cases "cs = []")
    case True
    then have "c = sep # x" "Dir c = [sep]" using c cs' d by (simp_all add: absPath_def)
    then have "\<not> c < Dir c" by simp
    with n1 n2 n3 True show ?thesis by (simp add: Less_def)
  next
    case False
    with n1 n2 n3 show ?thesis by (simp add: Less_def)
  qed
qed
section \<open>Entries: children list and range scan\<close>

lemma Less_keys: "key x = key x' \<Longrightarrow> key y = key y' \<Longrightarrow> Less x y = Less x' y'"
  by (simp add: Less_def)

lemma Entries_rangeScan:
  assumes g: "Get k s = NodePtr n" and st: "stat n = Some st" and d: "IsDir (Mode st)"
  shows "Entries hp s k =
     Inr (map info (filter
        (\<lambda>i. (\<not> Less i \<lparr>key = k, info = NilInfo\<rparr> \<and> Less i \<lparr>key = k @ ''//'', info = NilInfo\<rparr>)
              \<and> key i \<noteq> k \<and> Dir (key i) = k) s))"
proof (cases "btGet \<lparr>key = k, info = NilInfo\<rparr> s")
  case None
  with g show ?thesis by (simp add: Get_def)
next
  case (Some sk)
  with g have i: "info sk = NodePtr n" by (simp add: Get_def)
  from btGet_Some [OF Some] have k: "key sk = k" by simp
  have l1: "Less i sk = Less i \<lparr>key = k, info = NilInfo\<rparr>" for i
    by (rule Less_keys) (simp_all add: k)
  have l2: "Less i \<lparr>key = key sk @ ''//'', info = NilInfo\<rparr> = Less i \<lparr>key = k @ ''//'', info = NilInfo\<rparr>" for i
    by (simp add: k)
  show ?thesis
    using Some i st d
    by (simp add: Entries_def fi_stat_def fi_node_def rangeScan_def AscendRange_def l1 k conj_commute conj_left_commute)
qed

lemma child_count:
  assumes canon: "fuseNameToKey c = c" and ne: "c \<noteq> Dir c"
  shows "CountSep c = (if Dir c = [sep] then 1 else CountSep (Dir c) + 1)"
proof -
  from fuseNameToKey_canon [of c] canon obtain cs'
    where good': "\<forall>c \<in> set cs'. goodElem c" and c: "c = absPath cs'" by auto
  from ne c Dir_root have "cs' \<noteq> []" by auto
  then obtain cs x where cs': "cs' = cs @ [x]" by (metis rev_exhaust)
  with good' have good: "\<forall>c \<in> set cs. goodElem c" and gx: "goodElem x" by simp_all
  have d: "Dir c = absPath cs" using Dir_absPath_snoc [OF good gx] c cs' by simp
  have n1: "CountSep c = length cs + 1" using CountSep_absPath [OF good'] c cs' by simp
  have n2: "CountSep (Dir c) = (if cs = [] then 1 else length cs)"
    using CountSep_absPath [OF good] d by simp
  have "(Dir c = [sep]) = (cs = [])"
  proof (cases cs)
    case Nil
    with d show ?thesis by (simp add: absPath_def)
  next
    case (Cons y ys)
    with good have "y \<noteq> []" by (simp add: goodElem_def)
    then have "JoinStrings (y # ys) [sep] \<noteq> []" by (cases ys) simp_all
    with d Cons show ?thesis by (simp add: absPath_def)
  qed
  with n1 n2 show ?thesis by simp
qed

lemma fallback_children:
  assumes canon: "\<forall>i \<in> set s. fuseNameToKey (key i) = key i"
    and g: "Get k s = NodePtr n" and st: "stat n = Some st" and d: "IsDir (Mode st)"
  shows "Entries hp s k = Inr (map info (filter (\<lambda>i. key i \<noteq> k \<and> Dir (key i) = k) s))"
proof -
  have "filter
        (\<lambda>i. (\<not> Less i \<lparr>key = k, info = NilInfo\<rparr> \<and> Less i \<lparr>key = k @ ''//'', info = NilInfo\<rparr>)
              \<and> key i \<noteq> k \<and> Dir (key i) = k) s
      = filter (\<lambda>i. key i \<noteq> k \<and> Dir (key i) = k) s"
  proof (rule filter_cong [OF refl])
    fix i assume i: "i \<in> set s"
    show "((\<not> Less i \<lparr>key = k, info = NilInfo\<rparr> \<and> Less i \<lparr>key = k @ ''//'', info = NilInfo\<rparr>)
              \<and> key i \<noteq> k \<and> Dir (key i) = k) = (key i \<noteq> k \<and> Dir (key i) = k)"
    proof (cases "key i \<noteq> k \<and> Dir (key i) = k")
      case False
      then show ?thesis by blast
    next
      case True
      from canon i have c: "key i = fuseNameToKey (key i)" by simp
      from True have ne: "key i \<noteq> Dir (key i)" by simp
      have "Less i x = Less \<lparr>key = key i, info = info i\<rparr> x" for x
        by (rule Less_keys) simp_all
      with child_in_range [OF c ne, of "info i" NilInfo NilInfo] True
      show ?thesis by simp
    qed
  qed
  with Entries_rangeScan [OF g st d, of hp] show ?thesis by simp
qed

lemma children_sorted:
  assumes sorted: "sorted_wrt Less s" and canon: "\<forall>i \<in> set s. fuseNameToKey (key i) = key i"
  shows "sorted_wrt (\<lambda>x y. key x < key y) (filter (\<lambda>i. key i \<noteq> k \<and> Dir (key i) = k) s)"
proof -
  let ?P = "\<lambda>i. key i \<noteq> k \<and> Dir (key i) = k"
  have 1: "sorted_wrt Less (filter ?P s)" using sorted by (rule sorted_wrt_filter)
  have 2: "key x < key y" if "x \<in> set (filter ?P s)" "y \<in> set (filter ?P s)" "Less x y" for x y
  proof -
    from that canon have "CountSep (key x) = CountSep (key y)"
      using child_count [of "key x"] child_count [of "key y"] by auto
    with that(3) show ?thesis by (simp add: Less_def)
  qed
  from 1 2 show ?thesis by (rule sorted_wrt_mono_rel [rotated])
qed
lemma Less_trans: "Less a b \<Longrightarrow> Less b c \<Longrightarrow> Less a c"
  by (auto simp add: Less_def Let_def split: if_splits)

lemma ReplaceOrInsert_set:
  "set (ReplaceOrInsert x s) \<subseteq> insert x (set s)"
  by (induction s) auto

lemma ReplaceOrInsert_sorted:
  "sorted_wrt Less s \<Longrightarrow> sorted_wrt Less (ReplaceOrInsert x s)"
proof (induction s)
  case Nil
  then show ?case by simp
next
  case (Cons y ys)
  show ?case
  proof (cases "Less x y")
    case True
    with Cons.prems show ?thesis by (auto intro: Less_trans)
  next
    case nxy: False
    show ?thesis
    proof (cases "Less y x")
      case True
      have "Less y z" if "z \<in> set (ReplaceOrInsert x ys)" for z
        using that ReplaceOrInsert_set [of x ys] True Cons.prems by auto
      with nxy True Cons show ?thesis by simp
    next
      case False
      with nxy have "key x = key y" using Less_equiv [of x y] by simp
      then have "Less x z = Less y z" for z by (rule Less_keys) simp
      with nxy False Cons.prems show ?thesis by simp
    qed
  qed
qed

lemma Add_sorted: "sorted_wrt Less s \<Longrightarrow> sorted_wrt Less (Add k fi s)"
  by (simp add: Add_def ReplaceOrInsert_sorted)

lemma Entries_nil_panics:
  assumes "Get k s = NilInfo"
  shows "\<exists>msg. Entries hp s k = Inl (Panic msg)"
proof (cases "btGet \<lparr>key = k, info = NilInfo\<rparr> s")
  case None
  then show ?thesis by (simp add: Entries_def)
next
  case (Some sk)
  with assms have "info sk = NilInfo" by (simp add: Get_def)
  with Some show ?thesis by (simp add: Entries_def fi_stat_def fi_node_def)
qed

lemma ingested_Entries:
  assumes f: "FromReaderAt euid egid ra es fin NewBTreeStore [] = Inr srv"
  shows "(\<forall>k a. Get k (srv_db srv) = DirPtr a \<longrightarrow>
           Entries (srv_heap srv) (srv_db srv) k =
             Inr (childList (ingested es (seedRoot euid egid NewBTreeStore [])) k))
       \<and> (\<forall>k. (\<forall>a. Get k (srv_db srv) \<noteq> DirPtr a) \<longrightarrow>
             (\<exists>msg. Entries (srv_heap srv) (srv_db srv) k = Inl (Panic msg)))"
proof -
  from f obtain s where loop: "ingestLoop es (seedRoot euid egid NewBTreeStore []) = Inr s"
    and m: "missingDirs s = []" and srv: "srv = Newserver (bs_db s) (bs_heap s) ra"
    by (auto simp add: FromReaderAt_def split: sum.splits tarEnd.splits if_splits)
  from ingestLoop_storeOk [OF seedRoot_storeOk loop]
  have ok: "storeOk (bs_db s) (bs_heap s) []" using m by (simp add: stateOk_def)
  from ingestLoop_linked [OF seedRoot_linked loop]
  have l: "linked (bs_db s) (bs_heap s) (ingested es (seedRoot euid egid NewBTreeStore []))"
    by simp
  have db: "srv_db srv = bs_db s" and hp: "srv_heap srv = bs_heap s"
    by (simp_all add: srv Newserver_def)
  have has_stat: "fi_stat (bs_heap s) (Get k (bs_db s)) \<noteq> None" if "Get k (bs_db s) \<noteq> NilInfo" for k
    using ok that by (auto simp add: storeOk_def)
  have dirs: "Entries (bs_heap s) (bs_db s) k =
      Inr (childList (ingested es (seedRoot euid egid NewBTreeStore [])) k)"
    if g: "Get k (bs_db s) = DirPtr a" for k a
  proof -
    from has_stat [of k] g obtain st where st: "stat (node (bs_heap s ! a)) = Some st"
      by (auto simp add: fi_stat_def fi_node_def)
    from linkedD(3) [OF l g st] have "IsDir (Mode st)" .
    from Entries_dirNode [OF g st this] linkedD(2) [OF l g] show ?thesis by simp
  qed
  have others: "\<exists>msg. Entries (bs_heap s) (bs_db s) k = Inl (Panic msg)"
    if nd: "\<forall>a. Get k (bs_db s) \<noteq> DirPtr a" for k
  proof (cases "Get k (bs_db s)")
    case NilInfo
    then show ?thesis by (rule Entries_nil_panics)
  next
    case (NodePtr n)
    with has_stat [of k] obtain st where st: "stat n = Some st"
      by (auto simp add: fi_stat_def fi_node_def)
    from linkedD(6) [OF l NodePtr st] have "\<not> IsDir (Mode st)" .
    with Entries_non_dir [of "bs_heap s" k "bs_db s" st] NodePtr st show ?thesis
      by (simp add: fi_stat_def fi_node_def)
  next
    case (DirPtr a)
    with nd show ?thesis by simp
  qed
  from dirs others show ?thesis by (simp add: db hp)
qed

text \<open>
  What \<open>Entries\<close> returns. On a server that \<open>FromReaderAt\<close> built in a new store,
  a key that holds a directory node gives the nodes ingested for the entries whose parent
  path is that key, in the order of their headers in the archive, and every other key
  panics: the range scan is never reached there. The range scan, taken for a directory
  stored as a plain node in an ordered store of canonical keys, gives the stored nodes whose
  parent path is the key, in ascending order of their keys.
\<close>

lemma Entries_on_ingested_index:
  "(FromReaderAt euid egid ra es fin NewBTreeStore [] = Inr srv \<longrightarrow>
      (\<forall>k a. Get k (srv_db srv) = DirPtr a \<longrightarrow>
         Entries (srv_heap srv) (srv_db srv) k =
           Inr (childList (ingested es (seedRoot euid egid NewBTreeStore [])) k))
      \<and> (\<forall>k. (\<forall>a. Get k (srv_db srv) \<noteq> DirPtr a) \<longrightarrow>
            (\<exists>msg. Entries (srv_heap srv) (srv_db srv) k = Inl (Panic msg))))
   \<and> (sorted_wrt Less s \<and> (\<forall>i \<in> set s. fuseNameToKey (key i) = key i)
        \<and> Get k' s = NodePtr n \<and> stat n = Some st \<and> IsDir (Mode st) \<longrightarrow>
        Entries hp s k' = Inr (map info (filter (\<lambda>i. key i \<noteq> k' \<and> Dir (key i) = k') s))
        \<and> sorted_wrt (\<lambda>x y. key x < key y) (filter (\<lambda>i. key i \<noteq> k' \<and> Dir (key i) = k') s))"
  using ingested_Entries [of euid egid ra es fin srv]
    fallback_children [of s k' n st hp] children_sorted [of s k']
  by blast

lemma exTest_FromReaderAt:
  "FromReaderAt 0 0 (bytesReader exStream) exTestArchive TarEOF NewBTreeStore [] = Inr exTestServer"
proof -
  have "ingestLoop exTestArchive (seedRoot 0 0 NewBTreeStore []) = Inr (exState exTestArchive)"
    and "missingDirs (exState exTestArchive) = []" by code_simp+
  then show ?thesis
    by (simp add: FromReaderAt_def exTestServer_def)
qed

text \<open>
  C1 does not hold of the code. \<^verbatim>\<open>TestEntries\<close> adds \<^verbatim>\<open>/foo\<close> before
  \<^verbatim>\<open>/bar\<close> and expects \<open>Entries\<close> of the root to be \<^verbatim>\<open>bar\<close>,
  \<^verbatim>\<open>foo\<close>, which the range scan of its store of plain nodes returns. An archive
  with the same paths in the same order is ingested into directory nodes, and there
  \<open>Entries\<close> of the root returns the children list as it was appended to:
  \<^verbatim>\<open>foo\<close>, \<^verbatim>\<open>bar\<close>, which is not sorted and not what the range scan gives.
\<close>

theorem Entries_fast_path_archive_order:
  "map_sum id (map (fi_Name [])) (Entries [] exTestStore ''/'') = Inr [''bar'', ''foo'']
   \<and> FromReaderAt 0 0 (bytesReader exStream) exTestArchive TarEOF NewBTreeStore [] = Inr exTestServer
   \<and> map_sum id (map (\<lambda>e. Base (fi_Name (srv_heap exTestServer) e)))
         (Entries (srv_heap exTestServer) (srv_db exTestServer) ''/'') = Inr [''foo'', ''bar'']
   \<and> \<not> sorted [''foo'', ''bar'']"
proof -
  have "map_sum id (map (fi_Name [])) (Entries [] exTestStore ''/'') = Inr [''bar'', ''foo'']"
    and "map_sum id (map (\<lambda>e. Base (fi_Name (srv_heap exTestServer) e)))
         (Entries (srv_heap exTestServer) (srv_db exTestServer) ''/'') = Inr [''foo'', ''bar'']"
    and "\<not> sorted [''foo'', ''bar'']"
    by code_simp+
  with exTest_FromReaderAt show ?thesis by simp
qed

end
